theory Spec2Isabelle
  imports Main "HOL-Library.Multiset" "HOL-Library.Char_ord" "HOL-Library.List_Lexorder"
begin

section \<open>The Go library functions that service.go calls\<close>

text \<open>
  Go strings are byte sequences; they are modelled as \<open>string\<close> (a list of 8-bit
  characters). Comparison of characters is comparison of byte values, comparison of strings
  is the lexicographic order on bytes, which is what Go's \<open><\<close> on strings and
  \<open>strings.Compare\<close> compute.
\<close>

subsection \<open>Package strings\<close>

definition strings_HasPrefix :: "string \<Rightarrow> string \<Rightarrow> bool" where
  "strings_HasPrefix s p = (take (length p) s = p)"

definition strings_TrimPrefix :: "string \<Rightarrow> string \<Rightarrow> string" where
  "strings_TrimPrefix s p = (if strings_HasPrefix s p then drop (length p) s else s)"

definition strings_HasSuffix :: "string \<Rightarrow> string \<Rightarrow> bool" where
  "strings_HasSuffix s p = (length p \<le> length s \<and> drop (length s - length p) s = p)"

definition strings_TrimSuffix :: "string \<Rightarrow> string \<Rightarrow> string" where
  "strings_TrimSuffix s p = (if strings_HasSuffix s p then take (length s - length p) s else s)"

definition strings_Compare :: "string \<Rightarrow> string \<Rightarrow> int" where
  "strings_Compare a b = (if a = b then 0 else if a < b then - 1 else 1)"

text \<open>
  \<open>strings.Title\<close> maps to title case every letter that follows a separator; the scan
  starts as if a space came before the string. The model is exact on ASCII input. A byte
  above 0x7F is copied and counted as part of a word (Go decodes such bytes as UTF-8 and
  consults the Unicode tables, which are not modelled); the statements below that speak of
  titles are about ASCII request paths.
\<close>

text \<open>The test \<^verbatim>\<open>lo <= c && c <= hi\<close> on bytes.\<close>

abbreviation in_range :: "char \<Rightarrow> char \<Rightarrow> char \<Rightarrow> bool" where
  "in_range c lo hi \<equiv> lo \<le> c \<and> c \<le> hi"

definition isSeparator :: "char \<Rightarrow> bool" where
  "isSeparator r =
     (if r \<le> CHR 0x7F then
        (if in_range r CHR ''0'' CHR ''9'' then False
         else if in_range r CHR ''a'' CHR ''z'' then False
         else if in_range r CHR ''A'' CHR ''Z'' then False
         else if r = CHR ''_'' then False
         else True)
      else False)"

definition unicode_ToTitle :: "char \<Rightarrow> char" where
  "unicode_ToTitle r =
     (if in_range r CHR ''a'' CHR ''z'' then char_of (of_char r - (32::nat)) else r)"

fun Title_from :: "char \<Rightarrow> string \<Rightarrow> string" where
  "Title_from prev [] = []"
| "Title_from prev (r # rs) =
     (if isSeparator prev then unicode_ToTitle r else r) # Title_from r rs"

definition strings_Title :: "string \<Rightarrow> string" where
  "strings_Title s = Title_from (CHR '' '') s"

subsection \<open>Package path/filepath (Unix)\<close>

text \<open>\<open>splitSep\<close> cuts a path at every separator; \<open>joinSep\<close> is its inverse.\<close>

fun splitSep :: "string \<Rightarrow> string list" where
  "splitSep [] = [[]]"
| "splitSep (c # cs) =
     (if c = CHR ''/'' then [] # splitSep cs
      else (c # hd (splitSep cs)) # tl (splitSep cs))"

fun joinSep :: "string list \<Rightarrow> string" where
  "joinSep [] = []"
| "joinSep [x] = x"
| "joinSep (x # y # zs) = x @ CHR ''/'' # joinSep (y # zs)"

text \<open>
  \<open>filepath.Clean\<close>, by its documented rules, applied to the elements of the path from
  left to right: empty elements and \<open>.\<close> are dropped; \<open>..\<close> removes the element
  before it when there is one that is not itself \<open>..\<close>, is dropped at the start of a
  rooted path, and is kept at the start of a relative one. The empty result is \<open>.\<close>.
  \<open>clean_elems\<close> carries the elements written so far (Go's output buffer).
\<close>

fun clean_elems :: "bool \<Rightarrow> string list \<Rightarrow> string list \<Rightarrow> string list" where
  "clean_elems rooted out [] = out"
| "clean_elems rooted out (e # es) =
     (if e = [] \<or> e = ''.'' then clean_elems rooted out es
      else if e = ''..'' then
        (if out \<noteq> [] \<and> last out \<noteq> ''..'' then clean_elems rooted (butlast out) es
         else if rooted then clean_elems rooted out es
         else clean_elems rooted (out @ [''..'']) es)
      else clean_elems rooted (out @ [e]) es)"

definition filepath_Clean :: "string \<Rightarrow> string" where
  "filepath_Clean path =
     (if path = [] then ''.''
      else
        let rooted = (hd path = CHR ''/'');
            out = clean_elems rooted [] (splitSep path)
        in if rooted then CHR ''/'' # joinSep out
           else if out = [] then ''.''
           else joinSep out)"

text \<open>
  \<open>filepath.Join\<close> skips the leading empty elements, joins the rest with separators and
  cleans the result; with nothing but empty elements it returns the empty string.
\<close>

definition filepath_Join :: "string list \<Rightarrow> string" where
  "filepath_Join elem =
     (case dropWhile (\<lambda>e. e = []) elem of
        [] \<Rightarrow> []
      | es \<Rightarrow> filepath_Clean (joinSep es))"

text \<open>
  \<open>filepath.Ext\<close> scans from the end of the path up to the last separator and returns
  the suffix that starts at the first dot it meets. \<open>Ext_scan\<close> reads the reversed path
  and carries what it has passed.
\<close>

fun Ext_scan :: "string \<Rightarrow> string \<Rightarrow> string" where
  "Ext_scan [] acc = []"
| "Ext_scan (c # cs) acc =
     (if c = CHR ''/'' then []
      else if c = CHR ''.'' then c # acc
      else Ext_scan cs (c # acc))"

definition filepath_Ext :: "string \<Rightarrow> string" where
  "filepath_Ext path = Ext_scan (rev path) []"

subsection \<open>Package net/url\<close>

definition ishex :: "char \<Rightarrow> bool" where
  "ishex c = (in_range c CHR ''0'' CHR ''9'' \<or> in_range c CHR ''a'' CHR ''f''
              \<or> in_range c CHR ''A'' CHR ''F'')"

definition unhex :: "char \<Rightarrow> nat" where
  "unhex c =
     (if in_range c CHR ''0'' CHR ''9'' then of_char c - of_char (CHR ''0'')
      else if in_range c CHR ''a'' CHR ''f'' then of_char c - of_char (CHR ''a'') + 10
      else if in_range c CHR ''A'' CHR ''F'' then of_char c - of_char (CHR ''A'') + 10
      else 0)"

text \<open>
  \<open>url.PathUnescape\<close>: every \<open>%\<close> must be followed by two hexadecimal digits, and the
  three bytes become the byte they spell; anything else is copied. A malformed escape is
  the error \<open>EscapeError\<close>, carrying the offending bytes (at most three).
\<close>

datatype url_error = EscapeError string

fun url_PathUnescape :: "string \<Rightarrow> url_error + string" where
  "url_PathUnescape [] = Inr []"
| "url_PathUnescape (c # cs) =
     (if c = CHR ''%'' then
        (case cs of
           a # b # rest \<Rightarrow>
             (if ishex a \<and> ishex b then
                (case url_PathUnescape rest of
                   Inl e \<Rightarrow> Inl e
                 | Inr t \<Rightarrow> Inr (char_of (16 * unhex a + unhex b) # t))
              else Inl (EscapeError (take 3 (c # cs))))
         | _ \<Rightarrow> Inl (EscapeError (take 3 (c # cs))))
      else
        (case url_PathUnescape cs of
           Inl e \<Rightarrow> Inl e
         | Inr t \<Rightarrow> Inr (c # t)))"

text \<open>
  \<open>url.PathEscape\<close> escapes for a single path segment: letters, digits and
  \<open>- _ . ~ $ & + : = @\<close> are kept, every other byte becomes \<open>%XX\<close> in upper-case
  hexadecimal.
\<close>

definition shouldEscape :: "char \<Rightarrow> bool" where
  "shouldEscape c =
     (if in_range c CHR ''a'' CHR ''z'' \<or> in_range c CHR ''A'' CHR ''Z''
         \<or> in_range c CHR ''0'' CHR ''9'' then False
      else if c \<in> set ''-_.~'' then False
      else if c \<in> set ''$&+,/:;=?@'' then c \<in> set ''/;,?''
      else True)"

definition upperhex :: "nat \<Rightarrow> char" where
  "upperhex n = ''0123456789ABCDEF'' ! n"

fun url_PathEscape :: "string \<Rightarrow> string" where
  "url_PathEscape [] = []"
| "url_PathEscape (c # cs) =
     (if shouldEscape c
      then CHR ''%'' # upperhex (of_char c div 16) # upperhex (of_char c mod 16) # url_PathEscape cs
      else c # url_PathEscape cs)"

section \<open>The file system\<close>

text \<open>
  The directory tree the service reads: a file with its modification time, or a directory
  with its modification time and its entries by name. Times are instants on one scale (an
  integer count of nanoseconds). A \<open>filesystem\<close> is the tree from \<open>/\<close> together with
  the working directory of the process, as the names that lead to it from \<open>/\<close>. Symbolic
  links and permissions are not modelled: every entry that exists can be read.
\<close>

datatype node = FileNode int | DirNode int "(string \<times> node) list"

fun is_dir :: "node \<Rightarrow> bool" where
  "is_dir (FileNode t) = False"
| "is_dir (DirNode t cs) = True"

fun mtime :: "node \<Rightarrow> int" where
  "mtime (FileNode t) = t"
| "mtime (DirNode t cs) = t"

fun entries :: "node \<Rightarrow> (string \<times> node) list" where
  "entries (FileNode t) = []"
| "entries (DirNode t cs) = cs"

record filesystem =
  fs_root :: node
  fs_cwd :: "string list"

text \<open>
  Path resolution as the kernel does it: the elements are followed one at a time from the
  starting directory; each step needs a directory to step from; the empty element and
  \<open>.\<close> stay, \<open>..\<close> goes up (and stays at \<open>/\<close>), a name goes to the entry of that
  name. \<open>namei\<close> carries the directories passed, the current one first.
\<close>

fun namei :: "node list \<Rightarrow> string list \<Rightarrow> node list option" where
  "namei st [] = Some st"
| "namei st (e # es) =
     (case st of
        [] \<Rightarrow> None
      | d # up \<Rightarrow>
          if \<not> is_dir d then None
          else if e = [] \<or> e = ''.'' then namei st es
          else if e = ''..'' then namei (if up = [] then st else up) es
          else (case map_of (entries d) e of
                  None \<Rightarrow> None
                | Some n \<Rightarrow> namei (n # st) es))"

definition resolve :: "filesystem \<Rightarrow> string \<Rightarrow> node option" where
  "resolve fs path =
     (if path = [] then None
      else
        case (if hd path = CHR ''/'' then Some [fs_root fs]
              else namei [fs_root fs] (fs_cwd fs)) of
          None \<Rightarrow> None
        | Some st \<Rightarrow>
            (case namei st (splitSep path) of
               None \<Rightarrow> None
             | Some [] \<Rightarrow> None
             | Some (n # up) \<Rightarrow> Some n))"

subsection \<open>Package os and io/ioutil\<close>

record os_FileInfo =
  fi_Name :: string
  fi_IsDir :: bool
  fi_ModTime :: int

text \<open>\<open>basename\<close> of package os: trailing separators go, then everything up to the last
  separator.\<close>

definition basename :: "string \<Rightarrow> string" where
  "basename name =
     (let t = rev (dropWhile (\<lambda>c. c = CHR ''/'') (rev name))
      in if t = [] then (if name = [] then [] else ''/'')
         else rev (takeWhile (\<lambda>c. c \<noteq> CHR ''/'') (rev t)))"

definition info_of :: "string \<Rightarrow> node \<Rightarrow> os_FileInfo" where
  "info_of name n = \<lparr>fi_Name = name, fi_IsDir = is_dir n, fi_ModTime = mtime n\<rparr>"

text \<open>\<open>os.Stat\<close> and \<open>os.Lstat\<close>: \<open>None\<close> is the error return, with which Go hands
  back a nil \<open>FileInfo\<close>.\<close>

definition os_Stat :: "filesystem \<Rightarrow> string \<Rightarrow> os_FileInfo option" where
  "os_Stat fs name = map_option (info_of (basename name)) (resolve fs name)"

definition os_Lstat :: "filesystem \<Rightarrow> string \<Rightarrow> os_FileInfo option" where
  "os_Lstat fs name = os_Stat fs name"

text \<open>\<open>ioutil.ReadDir\<close> lists a directory sorted by file name; on an error it returns no
  list. The names within one directory are distinct, so the sorted order is unique.\<close>

definition readdir_sorted :: "filesystem \<Rightarrow> string \<Rightarrow> (string \<times> node) list option" where
  "readdir_sorted fs dirname =
     (case resolve fs dirname of
        None \<Rightarrow> None
      | Some (FileNode t) \<Rightarrow> None
      | Some (DirNode t cs) \<Rightarrow> Some (sort_key fst cs))"

definition ioutil_ReadDir :: "filesystem \<Rightarrow> string \<Rightarrow> os_FileInfo list option" where
  "ioutil_ReadDir fs dirname =
     map_option (map (\<lambda>(name, n). info_of name n)) (readdir_sorted fs dirname)"

section \<open>service.go: classification and link metadata\<close>

definition pathTypeFile :: int where "pathTypeFile = 0"
definition pathTypeDirOfDirs :: int where "pathTypeDirOfDirs = 1"
definition pathTypeDirOfFiles :: int where "pathTypeDirOfFiles = 2"

text \<open>A call of a method on a nil interface value stops the goroutine with a run-time
  panic; the model returns it as a value.\<close>

datatype panic = NilPointerDereference

fun isFile :: "os_FileInfo option \<Rightarrow> panic + bool" where
  "isFile None = Inl NilPointerDereference"
| "isFile (Some fi) = Inr (\<not> fi_IsDir fi)"

text \<open>The loop of \<open>getPathType\<close> over the listing: it returns at the first file.\<close>

fun getPathType_loop :: "os_FileInfo list \<Rightarrow> panic + int" where
  "getPathType_loop [] = Inr pathTypeDirOfDirs"
| "getPathType_loop (fi # fis) =
     (case isFile (Some fi) of
        Inl p \<Rightarrow> Inl p
      | Inr f \<Rightarrow> if f then Inr pathTypeDirOfFiles else getPathType_loop fis)"

text \<open>\<open>getPathType\<close> drops both error returns: after a failed \<open>os.Stat\<close> it calls
  \<open>isFile\<close> on nil, and after a failed \<open>ioutil.ReadDir\<close> it loops over the nil list.\<close>

definition getPathType :: "filesystem \<Rightarrow> string \<Rightarrow> panic + int" where
  "getPathType fs dirpath =
     (case isFile (os_Stat fs dirpath) of
        Inl p \<Rightarrow> Inl p
      | Inr f \<Rightarrow>
          if f then Inr pathTypeFile
          else getPathType_loop (case ioutil_ReadDir fs dirpath of None \<Rightarrow> [] | Some fis \<Rightarrow> fis))"

definition getRel :: "string \<Rightarrow> int \<Rightarrow> string" where
  "getRel name pathType =
     (if pathType = pathTypeDirOfFiles \<or> pathType = pathTypeDirOfDirs then ''subsection''
      else
        let ext = filepath_Ext name
        in if ext = ''.png'' \<or> ext = ''.jpg'' \<or> ext = ''.jpeg'' \<or> ext = ''.gif''
           then ''http://opds-spec.org/image/thumbnail''
           else ''http://opds-spec.org/acquisition'')"

text \<open>\<open>mime\<close> stands for \<open>mime.TypeByExtension\<close>, read from the table of the host as
  the six \<open>mime.AddExtensionType\<close> calls of \<open>init\<close> have extended it.\<close>

definition getType :: "(string \<Rightarrow> string) \<Rightarrow> string \<Rightarrow> int \<Rightarrow> string" where
  "getType mime name pathType =
     (if pathType = pathTypeFile then mime (filepath_Ext name)
      else if pathType = pathTypeDirOfFiles
        then ''application/atom+xml;profile=opds-catalog;kind=acquisition''
      else if pathType = pathTypeDirOfDirs
        then ''application/atom+xml;profile=opds-catalog;kind=navigation''
      else mime ''xml'')"

section \<open>Package sort, as the Go 1.16 toolchain of the Dockerfile ships it\<close>

text \<open>
  \<open>sort.Slice\<close> runs \<open>quickSort_func\<close> on the whole slice with a depth limit of
  \<open>maxDepth\<close>. The slice is read through \<open>Less\<close> and changed only through \<open>Swap\<close>;
  the comparison the caller passes compares the elements at two indices, so it is modelled
  as a relation \<open>lt\<close> (is less than) on elements. The indices of the library stay inside the slice;
  the model makes \<open>Swap\<close> total by leaving the slice alone otherwise. Indices are natural
  numbers: the loops that count down to \<open>0\<close> inclusive run over the reversed range.
\<close>

definition Swap :: "nat \<Rightarrow> nat \<Rightarrow> 'a list \<Rightarrow> 'a list" where
  "Swap i j xs = (if i < length xs \<and> j < length xs then xs[i := xs ! j, j := xs ! i] else xs)"

definition Less :: "('a \<Rightarrow> 'a \<Rightarrow> bool) \<Rightarrow> 'a list \<Rightarrow> nat \<Rightarrow> nat \<Rightarrow> bool" where
  "Less lt xs i j = lt (xs ! i) (xs ! j)"

text \<open>The inner loop of \<open>insertionSort_func\<close>:
  \<^verbatim>\<open>for j := i; j > a && data.Less(j, j-1); j-- { data.Swap(j, j-1) }\<close>\<close>

fun insert_down :: "('a \<Rightarrow> 'a \<Rightarrow> bool) \<Rightarrow> nat \<Rightarrow> nat \<Rightarrow> 'a list \<Rightarrow> 'a list" where
  "insert_down lt a 0 xs = xs"
| "insert_down lt a (Suc j) xs =
     (if Suc j > a \<and> Less lt xs (Suc j) j then insert_down lt a j (Swap (Suc j) j xs)
      else xs)"

definition insertionSort_func :: "('a \<Rightarrow> 'a \<Rightarrow> bool) \<Rightarrow> 'a list \<Rightarrow> nat \<Rightarrow> nat \<Rightarrow> 'a list" where
  "insertionSort_func lt xs a b = fold (insert_down lt a) [a + 1..<b] xs"

function siftDown_func ::
  "('a \<Rightarrow> 'a \<Rightarrow> bool) \<Rightarrow> 'a list \<Rightarrow> nat \<Rightarrow> nat \<Rightarrow> nat \<Rightarrow> 'a list" where
  "siftDown_func lt xs root hi first =
     (if 2 * root + 1 \<ge> hi then xs
      else
        let child = (if 2 * root + 2 < hi \<and> Less lt xs (first + (2 * root + 1)) (first + (2 * root + 1) + 1)
                     then 2 * root + 2 else 2 * root + 1)
        in if \<not> Less lt xs (first + root) (first + child) then xs
           else siftDown_func lt (Swap (first + root) (first + child) xs) child hi first)"
  by pat_completeness auto
termination
  by (relation "measure (\<lambda>(lt, xs, root, hi, first). hi - root)") (auto split: if_splits)

declare siftDown_func.simps [simp del]

definition heapSort_func :: "('a \<Rightarrow> 'a \<Rightarrow> bool) \<Rightarrow> 'a list \<Rightarrow> nat \<Rightarrow> nat \<Rightarrow> 'a list" where
  "heapSort_func lt xs a b =
     (let first = a; lo = 0; hi = b - a;
          built = fold (\<lambda>i ys. siftDown_func lt ys i hi first) (rev [0..<(hi - 1) div 2 + 1]) xs
      in fold (\<lambda>i ys. siftDown_func lt (Swap first (first + i) ys) lo i first) (rev [0..<hi]) built)"

definition medianOfThree_func ::
  "('a \<Rightarrow> 'a \<Rightarrow> bool) \<Rightarrow> 'a list \<Rightarrow> nat \<Rightarrow> nat \<Rightarrow> nat \<Rightarrow> 'a list" where
  "medianOfThree_func lt xs m1 m0 m2 =
     (let ys = (if Less lt xs m1 m0 then Swap m1 m0 xs else xs)
      in if Less lt ys m2 m1 then
           (let zs = Swap m2 m1 ys
            in if Less lt zs m1 m0 then Swap m1 m0 zs else zs)
         else ys)"

text \<open>The scans of \<open>doPivot_func\<close>, each a loop with an empty body:
  \<^verbatim>\<open>for ; a < c && data.Less(a, pivot); a++ {}\<close>,
  \<^verbatim>\<open>for ; b < c && !data.Less(pivot, b); b++ {}\<close>,
  \<^verbatim>\<open>for ; b < c && data.Less(pivot, c-1); c-- {}\<close> and
  \<^verbatim>\<open>for ; a < b && !data.Less(b-1, pivot); b-- {}\<close>.\<close>

function scan_less :: "('a \<Rightarrow> 'a \<Rightarrow> bool) \<Rightarrow> 'a list \<Rightarrow> nat \<Rightarrow> nat \<Rightarrow> nat \<Rightarrow> nat" where
  "scan_less lt xs pivot a c =
     (if a < c \<and> Less lt xs a pivot then scan_less lt xs pivot (a + 1) c else a)"
  by pat_completeness auto
termination
  by (relation "measure (\<lambda>(lt, xs, pivot, a, c). c - a)") auto

declare scan_less.simps [simp del]

function scan_not_greater :: "('a \<Rightarrow> 'a \<Rightarrow> bool) \<Rightarrow> 'a list \<Rightarrow> nat \<Rightarrow> nat \<Rightarrow> nat \<Rightarrow> nat" where
  "scan_not_greater lt xs pivot b c =
     (if b < c \<and> \<not> Less lt xs pivot b then scan_not_greater lt xs pivot (b + 1) c else b)"
  by pat_completeness auto
termination
  by (relation "measure (\<lambda>(lt, xs, pivot, b, c). c - b)") auto

declare scan_not_greater.simps [simp del]

function scan_greater_down :: "('a \<Rightarrow> 'a \<Rightarrow> bool) \<Rightarrow> 'a list \<Rightarrow> nat \<Rightarrow> nat \<Rightarrow> nat \<Rightarrow> nat" where
  "scan_greater_down lt xs pivot b c =
     (if b < c \<and> Less lt xs pivot (c - 1) then scan_greater_down lt xs pivot b (c - 1) else c)"
  by pat_completeness auto
termination
  by (relation "measure (\<lambda>(lt, xs, pivot, b, c). c)") auto

declare scan_greater_down.simps [simp del]

function scan_not_less_down :: "('a \<Rightarrow> 'a \<Rightarrow> bool) \<Rightarrow> 'a list \<Rightarrow> nat \<Rightarrow> nat \<Rightarrow> nat \<Rightarrow> nat" where
  "scan_not_less_down lt xs pivot a b =
     (if a < b \<and> \<not> Less lt xs (b - 1) pivot then scan_not_less_down lt xs pivot a (b - 1) else b)"
  by pat_completeness auto
termination
  by (relation "measure (\<lambda>(lt, xs, pivot, a, b). b)") auto

declare scan_not_less_down.simps [simp del]

lemma scan_not_greater_ge: "b \<le> scan_not_greater lt xs pivot b c"
proof (induction lt xs pivot b c rule: scan_not_greater.induct)
  case (1 lt xs pivot b c)
  show ?case
  proof (cases "b < c \<and> \<not> Less lt xs pivot b")
    case True
    then have "b + 1 \<le> scan_not_greater lt xs pivot (b + 1) c" using 1 by blast
    then show ?thesis using True by (subst scan_not_greater.simps) simp
  next
    case False
    then show ?thesis by (subst scan_not_greater.simps) auto
  qed
qed

lemma scan_greater_down_le: "scan_greater_down lt xs pivot b c \<le> c"
proof (induction lt xs pivot b c rule: scan_greater_down.induct)
  case (1 lt xs pivot b c)
  show ?case
  proof (cases "b < c \<and> Less lt xs pivot (c - 1)")
    case True
    then have "scan_greater_down lt xs pivot b (c - 1) \<le> c - 1" using 1 by blast
    then show ?thesis using True by (subst scan_greater_down.simps) simp
  next
    case False
    then show ?thesis by (subst scan_greater_down.simps) auto
  qed
qed

lemma scan_less_ge: "a \<le> scan_less lt xs pivot a c"
proof (induction lt xs pivot a c rule: scan_less.induct)
  case (1 lt xs pivot a c)
  show ?case
  proof (cases "a < c \<and> Less lt xs a pivot")
    case True
    then have "a + 1 \<le> scan_less lt xs pivot (a + 1) c" using 1 by blast
    then show ?thesis using True by (subst scan_less.simps) simp
  next
    case False
    then show ?thesis by (subst scan_less.simps) auto
  qed
qed

lemma scan_not_less_down_le: "scan_not_less_down lt xs pivot a b \<le> b"
proof (induction lt xs pivot a b rule: scan_not_less_down.induct)
  case (1 lt xs pivot a b)
  show ?case
  proof (cases "a < b \<and> \<not> Less lt xs (b - 1) pivot")
    case True
    then have "scan_not_less_down lt xs pivot a (b - 1) \<le> b - 1" using 1 by blast
    then show ?thesis using True by (subst scan_not_less_down.simps) simp
  next
    case False
    then show ?thesis by (subst scan_not_less_down.simps) auto
  qed
qed

text \<open>The partition loop of \<open>doPivot_func\<close>: both scans, then either the exit or a swap
  and a step inwards from both ends.\<close>

function pivot_loop ::
  "('a \<Rightarrow> 'a \<Rightarrow> bool) \<Rightarrow> 'a list \<Rightarrow> nat \<Rightarrow> nat \<Rightarrow> nat \<Rightarrow> 'a list \<times> nat \<times> nat" where
  "pivot_loop lt xs pivot b c =
     (if scan_not_greater lt xs pivot b c
           \<ge> scan_greater_down lt xs pivot (scan_not_greater lt xs pivot b c) c
      then (xs, scan_not_greater lt xs pivot b c,
            scan_greater_down lt xs pivot (scan_not_greater lt xs pivot b c) c)
      else pivot_loop lt
             (Swap (scan_not_greater lt xs pivot b c)
                   (scan_greater_down lt xs pivot (scan_not_greater lt xs pivot b c) c - 1) xs)
             pivot
             (scan_not_greater lt xs pivot b c + 1)
             (scan_greater_down lt xs pivot (scan_not_greater lt xs pivot b c) c - 1))"
  by pat_completeness auto
termination
proof (relation "measure (\<lambda>(lt, xs, pivot, b, c). c - b)", goal_cases)
  case 1
  show ?case by simp
next
  case (2 lt xs pivot b c)
  have "b \<le> scan_not_greater lt xs pivot b c"
    by (rule scan_not_greater_ge)
  moreover have "scan_greater_down lt xs pivot (scan_not_greater lt xs pivot b c) c \<le> c"
    by (rule scan_greater_down_le)
  ultimately show ?case using 2 by simp
qed

declare pivot_loop.simps [simp del]

text \<open>The loop that guards against many duplicates of the pivot.\<close>

function protect_loop ::
  "('a \<Rightarrow> 'a \<Rightarrow> bool) \<Rightarrow> 'a list \<Rightarrow> nat \<Rightarrow> nat \<Rightarrow> nat \<Rightarrow> 'a list \<times> nat \<times> nat" where
  "protect_loop lt xs pivot a b =
     (if scan_less lt xs pivot a (scan_not_less_down lt xs pivot a b)
           \<ge> scan_not_less_down lt xs pivot a b
      then (xs, scan_less lt xs pivot a (scan_not_less_down lt xs pivot a b),
            scan_not_less_down lt xs pivot a b)
      else protect_loop lt
             (Swap (scan_less lt xs pivot a (scan_not_less_down lt xs pivot a b))
                   (scan_not_less_down lt xs pivot a b - 1) xs)
             pivot
             (scan_less lt xs pivot a (scan_not_less_down lt xs pivot a b) + 1)
             (scan_not_less_down lt xs pivot a b - 1))"
  by pat_completeness auto
termination
proof (relation "measure (\<lambda>(lt, xs, pivot, a, b). b - a)", goal_cases)
  case 1
  show ?case by simp
next
  case (2 lt xs pivot a b)
  have "a \<le> scan_less lt xs pivot a (scan_not_less_down lt xs pivot a b)"
    by (rule scan_less_ge)
  moreover have "scan_not_less_down lt xs pivot a b \<le> b"
    by (rule scan_not_less_down_le)
  ultimately show ?case using 2 by simp
qed

declare protect_loop.simps [simp del]

text \<open>The three probes for copies of the pivot (\<open>dups\<close>) in \<open>doPivot_func\<close>; the result
  is the slice, \<open>b\<close>, \<open>c\<close> and the new value of \<open>protect\<close>.\<close>

definition dups_probe ::
  "('a \<Rightarrow> 'a \<Rightarrow> bool) \<Rightarrow> 'a list \<Rightarrow> nat \<Rightarrow> nat \<Rightarrow> nat \<Rightarrow> nat \<Rightarrow> nat
     \<Rightarrow> 'a list \<times> nat \<times> nat \<times> bool" where
  "dups_probe lt xs pivot m hi b c =
     (let (xs1, c1, d1) = (if \<not> Less lt xs pivot (hi - 1)
                           then (Swap c (hi - 1) xs, c + 1, 1::nat) else (xs, c, 0));
          (b2, d2) = (if \<not> Less lt xs1 (b - 1) pivot then (b - 1, d1 + 1) else (b, d1));
          (xs3, b3, d3) = (if \<not> Less lt xs1 m pivot
                           then (Swap m (b2 - 1) xs1, b2 - 1, d2 + 1) else (xs1, b2, d2))
      in (xs3, b3, c1, d3 > 1))"

definition doPivot_func ::
  "('a \<Rightarrow> 'a \<Rightarrow> bool) \<Rightarrow> 'a list \<Rightarrow> nat \<Rightarrow> nat \<Rightarrow> 'a list \<times> nat \<times> nat" where
  "doPivot_func lt xs lo hi =
     (let m = (lo + hi) div 2;
          xs0 = (if hi - lo > 40 then
                   (let s = (hi - lo) div 8;
                        y1 = medianOfThree_func lt xs lo (lo + s) (lo + 2 * s);
                        y2 = medianOfThree_func lt y1 m (m - s) (m + s)
                    in medianOfThree_func lt y2 (hi - 1) (hi - 1 - s) (hi - 1 - 2 * s))
                 else xs);
          xs1 = medianOfThree_func lt xs0 lo m (hi - 1);
          pivot = lo;
          a = scan_less lt xs1 pivot (lo + 1) (hi - 1);
          (xs2, b, c) = pivot_loop lt xs1 pivot a (hi - 1);
          (xs3, b3, c3, protect) =
             (if \<not> hi - c < 5 \<and> hi - c < (hi - lo) div 4
              then dups_probe lt xs2 pivot m hi b c
              else (xs2, b, c, hi - c < 5));
          (xs4, a4, b4) = (if protect then protect_loop lt xs3 pivot a b3 else (xs3, a, b3))
      in (Swap pivot (b4 - 1) xs4, b4 - 1, c3))"

text \<open>The tail of \<open>quickSort_func\<close> for at most twelve elements: one pass of Shell sort
  with gap 6, then insertion sort.\<close>

definition shell_pass :: "('a \<Rightarrow> 'a \<Rightarrow> bool) \<Rightarrow> 'a list \<Rightarrow> nat \<Rightarrow> nat \<Rightarrow> 'a list" where
  "shell_pass lt xs a b =
     fold (\<lambda>i ys. if Less lt ys i (i - 6) then Swap i (i - 6) ys else ys) [a + 6..<b] xs"

definition small_sort :: "('a \<Rightarrow> 'a \<Rightarrow> bool) \<Rightarrow> 'a list \<Rightarrow> nat \<Rightarrow> nat \<Rightarrow> 'a list" where
  "small_sort lt xs a b =
     (if b - a > 1 then insertionSort_func lt (shell_pass lt xs a b) a b else xs)"

text \<open>\<open>quickSort_func\<close>: every turn of its loop and every recursive call lowers
  \<open>maxDepth\<close> by one, so the function is recursive on it; the loop's next turn on the
  other part is the outer call.\<close>

fun quickSort_func ::
  "('a \<Rightarrow> 'a \<Rightarrow> bool) \<Rightarrow> 'a list \<Rightarrow> nat \<Rightarrow> nat \<Rightarrow> nat \<Rightarrow> 'a list" where
  "quickSort_func lt xs a b 0 =
     (if b - a > 12 then heapSort_func lt xs a b else small_sort lt xs a b)"
| "quickSort_func lt xs a b (Suc maxDepth) =
     (if b - a > 12 then
        (case doPivot_func lt xs a b of
           (ys, mlo, mhi) \<Rightarrow>
             if mlo - a < b - mhi
             then quickSort_func lt (quickSort_func lt ys a mlo maxDepth) mhi b maxDepth
             else quickSort_func lt (quickSort_func lt ys mhi b maxDepth) a mlo maxDepth)
      else small_sort lt xs a b)"

fun bit_length :: "nat \<Rightarrow> nat" where
  "bit_length n = (if n = 0 then 0 else Suc (bit_length (n div 2)))"

definition maxDepth :: "nat \<Rightarrow> nat" where
  "maxDepth n = bit_length n * 2"

definition sort_Slice :: "('a \<Rightarrow> 'a \<Rightarrow> bool) \<Rightarrow> 'a list \<Rightarrow> 'a list" where
  "sort_Slice lt x = quickSort_func lt x 0 (length x) (maxDepth (length x))"

section \<open>service.go: the catalog snapshot and the handler\<close>

record BookFile =
  Name :: string
  Path :: string
  BookAuthor :: string
  FileInfo :: os_FileInfo

text \<open>\<open>BookAuthor\<close> is the field \<open>Author\<close> of \<open>BookFile\<close>, which the service never sets.\<close>

record OPDS =
  DirRoot :: string
  Author :: string
  AuthorEmail :: string
  AuthorURI :: string

text \<open>
  Modelled from the spec: the types \<open>Feed\<close>, \<open>Entry\<close>, \<open>Link\<close> and \<open>Author\<close> of package
  \<open>opds\<close> and their builders are not among the sources. The spec gives a feed document an
  id, a title, an author (name, email, URI), an update time, links and an ordered sequence of
  entries, and gives an entry an id, a title, an update and a publication time and its link
  (href, relation, media type, title). A builder call sets the field of its name;
  \<open>AddLink\<close> and \<open>AddEntry\<close> append.
\<close>

record opds_Link =
  link_Rel :: string
  link_Title :: string
  link_Href :: string
  link_Type :: string

record opds_Author =
  author_Name :: string
  author_Email :: string
  author_URI :: string

record opds_Entry =
  entry_ID :: string
  entry_Title :: string
  entry_Updated :: int
  entry_Published :: int
  entry_Links :: "opds_Link list"

record opds_Feed =
  feed_ID :: string
  feed_Title :: string
  feed_Author :: opds_Author
  feed_Updated :: int
  feed_Links :: "opds_Link list"
  feed_Entries :: "opds_Entry list"

text \<open>
  The package-level variables: the snapshot \<open>files\<close> and the function value \<open>TimeNow\<close>.
  What the process meets outside itself at one moment is an \<open>environment\<close>: the file
  system, the MIME table behind \<open>mime.TypeByExtension\<close>, and the instant \<open>time.Now()\<close>
  would return.
\<close>

record globals =
  files :: "BookFile list"
  TimeNow :: "unit \<Rightarrow> int"

record environment =
  env_fs :: filesystem
  env_mime :: "string \<Rightarrow> string"
  env_now :: int

definition timeNowFunc :: "environment \<Rightarrow> (unit \<Rightarrow> int)" where
  "timeNowFunc env = (let t = env_now env in (\<lambda>_. t))"

text \<open>Package initialisation: \<^verbatim>\<open>var files = []BookFile{}\<close> and
  \<^verbatim>\<open>var TimeNow = timeNowFunc()\<close>.\<close>

definition package_init :: "environment \<Rightarrow> globals" where
  "package_init env = \<lparr>files = [], TimeNow = timeNowFunc env\<rparr>"

subsection \<open>The walk\<close>

text \<open>A directory entry is a name with what it names. The function literal that
  \<open>Handler\<close> passes to \<open>filepath.WalkDir\<close> calls \<open>de.IsDir()\<close> first, which panics on
  the nil entry that \<open>WalkDir\<close> passes when the root cannot be read; otherwise it appends
  every entry that is not a directory and returns nil.\<close>

type_synonym DirEntry = "string \<times> node"

fun walkFn :: "string \<Rightarrow> DirEntry option \<Rightarrow> BookFile list \<Rightarrow> panic + BookFile list" where
  "walkFn path None fls = Inl NilPointerDereference"
| "walkFn path (Some de) fls =
     Inr (if \<not> is_dir (snd de)
          then fls @ [\<lparr>Name = fst de, Path = path, BookAuthor = [],
                       FileInfo = info_of (fst de) (snd de)\<rparr>]
          else fls)"

fun node_size :: "node \<Rightarrow> nat" where
  "node_size (FileNode t) = 1"
| "node_size (DirNode t cs) = Suc (sum_list (map (\<lambda>e. node_size (snd e)) cs))"

lemma sum_list_sort_key:
  "sum_list (map f (sort_key k xs)) = sum_list (map (f :: 'a \<Rightarrow> nat) xs)"
proof -
  have "mset (map f (sort_key k xs)) = mset (map f xs)"
    by simp
  then show ?thesis
    by (metis sum_mset_sum_list)
qed

lemma node_size_entries:
  "sum_list (map (\<lambda>e. node_size (snd e)) (entries n)) < node_size n"
  by (cases n) simp_all

text \<open>\<open>walkDir\<close> of package filepath: the function is called on the entry; a directory
  is then listed in name order and each entry walked under the joined path. The function
  of this service never asks to skip or stop, so only a panic ends the walk early.\<close>

function walkDir ::
    "(string \<Rightarrow> DirEntry option \<Rightarrow> 's \<Rightarrow> panic + 's) \<Rightarrow> string \<Rightarrow> DirEntry \<Rightarrow> 's \<Rightarrow> panic + 's"
  and walkDir_each ::
    "(string \<Rightarrow> DirEntry option \<Rightarrow> 's \<Rightarrow> panic + 's) \<Rightarrow> string \<Rightarrow> DirEntry list \<Rightarrow> 's \<Rightarrow> panic + 's"
  where
  "walkDir fn path d st =
     (case fn path (Some d) st of
        Inl p \<Rightarrow> Inl p
      | Inr st1 \<Rightarrow>
          if \<not> is_dir (snd d) then Inr st1
          else walkDir_each fn path (sort_key fst (entries (snd d))) st1)"
| "walkDir_each fn path [] st = Inr st"
| "walkDir_each fn path (d1 # ds) st =
     (case walkDir fn (filepath_Join [path, fst d1]) d1 st of
        Inl p \<Rightarrow> Inl p
      | Inr st1 \<Rightarrow> walkDir_each fn path ds st1)"
  by pat_completeness auto
termination
proof (relation "measure (\<lambda>x. case x of
          Inl (fn, path, d, st) \<Rightarrow> 2 * node_size (snd d)
        | Inr (fn, path, ds, st) \<Rightarrow> 2 * sum_list (map (\<lambda>e. node_size (snd e)) ds) + 1)",
       goal_cases)
  case 1
  show ?case by simp
next
  case (2 fn path d st x2)
  have "sum_list (map (\<lambda>e. node_size (snd e)) (sort_key fst (entries (snd d))))
          < node_size (snd d)"
    by (simp only: sum_list_sort_key node_size_entries)
  then show ?case by simp
next
  case (3 fn path d1 ds st)
  show ?case by simp
next
  case (4 fn path d1 ds st x2)
  have "0 < node_size (snd d1)" by (cases "snd d1") simp_all
  then show ?case by simp
qed

definition filepath_WalkDir ::
  "filesystem \<Rightarrow> string \<Rightarrow> (string \<Rightarrow> DirEntry option \<Rightarrow> 's \<Rightarrow> panic + 's) \<Rightarrow> 's \<Rightarrow> panic + 's" where
  "filepath_WalkDir fs root fn st =
     (case resolve fs root of
        None \<Rightarrow> fn root None st
      | Some n \<Rightarrow> walkDir fn root (basename root, n) st)"

subsection \<open>The two sorted views\<close>

text \<open>\<^verbatim>\<open>sortedFiles := files\<close> copies the slice header, not the elements:
  \<open>sort.Slice\<close> then reorders the array of the argument, and the function returns the
  same slice. The result below is both the value returned and the new content of the
  argument; \<open>Handler\<close> stores it back into \<open>files\<close>.\<close>

definition sortByLatest :: "BookFile list \<Rightarrow> BookFile list" where
  "sortByLatest fls =
     sort_Slice (\<lambda>x y. fi_ModTime (FileInfo x) > fi_ModTime (FileInfo y)) fls"

definition sortByTitle :: "BookFile list \<Rightarrow> BookFile list" where
  "sortByTitle fls = sort_Slice (\<lambda>x y. strings_Compare (Name x) (Name y) < 0) fls"

subsection \<open>Handler\<close>

definition navigationType :: string where
  "navigationType = ''application/atom+xml;profile=opds-catalog;kind=navigation''"

definition acquisitionType :: string where
  "acquisitionType = ''application/atom+xml;profile=opds-catalog;kind=acquisition''"

text \<open>What a call of \<open>Handler\<close> ends with: the error it returns, a panic, the file handed
  to \<open>http.ServeFile\<close>, or the feed handed to \<open>http.ServeContent\<close> with the
  \<open>Content-Type\<close> header set before and the modification time passed along. The document
  is kept as the value that is marshalled (marshalling these values does not fail).\<close>

datatype document = NavigationFeed opds_Feed | AcquisitionFeed opds_Feed string string

datatype response =
    ReturnedError url_error
  | Panicked panic
  | ServedFile string
  | ServedContent string document int

definition startLink :: opds_Link where
  "startLink = \<lparr>link_Rel = ''start'', link_Title = [], link_Href = ''/'',
                 link_Type = navigationType\<rparr>"

text \<open>The two entries of the branch for \<open>/\<close> (lines 101 to 115).\<close>

definition rootEntries :: "environment \<Rightarrow> globals \<Rightarrow> opds_Entry list" where
  "rootEntries env g =
     [\<lparr>entry_ID = ''/latest'', entry_Title = ''Latest'',
       entry_Updated = TimeNow g (), entry_Published = TimeNow g (),
       entry_Links = [\<lparr>link_Rel = getRel ''latest'' pathTypeDirOfDirs, link_Title = ''Latest'',
                        link_Href = filepath_Join [''/'', url_PathEscape ''latest''],
                        link_Type = getType (env_mime env) ''Latest'' pathTypeDirOfDirs\<rparr>]\<rparr>,
      \<lparr>entry_ID = ''/titles'', entry_Title = ''By Title'',
       entry_Updated = TimeNow g (), entry_Published = TimeNow g (),
       entry_Links = [\<lparr>link_Rel = getRel ''titles'' pathTypeDirOfDirs, link_Title = ''By Title'',
                        link_Href = filepath_Join [''/'', url_PathEscape ''titles''],
                        link_Type = getType (env_mime env) ''By Title'' pathTypeDirOfDirs\<rparr>]\<rparr>]"

text \<open>The body of the loops over \<open>sortByLatest(files)\<close> and \<open>sortByTitle(files)\<close>
  (lines 119 to 128 and 133 to 142), and the loops.\<close>

definition fileEntry :: "OPDS \<Rightarrow> environment \<Rightarrow> globals \<Rightarrow> string \<Rightarrow> BookFile \<Rightarrow> int \<Rightarrow> opds_Entry" where
  "fileEntry s env g urlPath f pathType =
     (let fi = FileInfo f
      in \<lparr>entry_ID = urlPath @ fi_Name fi, entry_Title = fi_Name fi,
           entry_Updated = TimeNow g (), entry_Published = TimeNow g (),
           entry_Links =
             [\<lparr>link_Rel = getRel (Path f) pathType, link_Title = fi_Name fi,
               link_Href = filepath_Join
                 [''/'', url_PathEscape (strings_TrimPrefix (Path f) (DirRoot s))],
               link_Type = getType (env_mime env) (Path f) pathType\<rparr>]\<rparr>)"

fun fileEntries ::
  "OPDS \<Rightarrow> environment \<Rightarrow> globals \<Rightarrow> string \<Rightarrow> BookFile list \<Rightarrow> panic + opds_Entry list" where
  "fileEntries s env g urlPath [] = Inr []"
| "fileEntries s env g urlPath (f # fs) =
     (case getPathType (env_fs env) (Path f) of
        Inl p \<Rightarrow> Inl p
      | Inr pathType \<Rightarrow>
          (case fileEntries s env g urlPath fs of
             Inl p \<Rightarrow> Inl p
           | Inr es \<Rightarrow> Inr (fileEntry s env g urlPath f pathType # es)))"

text \<open>Lines 149 to 168: the feed is built and written, as an acquisition feed when
  \<open>fPath\<close> classifies as a directory of files and as a navigation feed otherwise.\<close>

definition serveFeed :: "environment \<Rightarrow> globals \<Rightarrow> string \<Rightarrow> opds_Feed \<Rightarrow> response" where
  "serveFeed env g fPath navFeed =
     (case getPathType (env_fs env) fPath of
        Inl p \<Rightarrow> Panicked p
      | Inr pathType \<Rightarrow>
          if pathType = pathTypeDirOfFiles
          then ServedContent acquisitionType
                 (AcquisitionFeed navFeed ''http://purl.org/dc/terms/''
                    ''http://opds-spec.org/2010/catalog'')
                 (TimeNow g ())
          else ServedContent navigationType (NavigationFeed navFeed) (TimeNow g ()))"

text \<open>\<open>Handler\<close>, on the path of the request URL. It returns what the call ends with and
  the package-level variables as the call leaves them.\<close>

definition Handler :: "OPDS \<Rightarrow> environment \<Rightarrow> globals \<Rightarrow> string \<Rightarrow> response \<times> globals" where
  "Handler s env g reqPath =
     (case url_PathUnescape reqPath of
        Inl err \<Rightarrow> (ReturnedError err, g)
      | Inr urlPath \<Rightarrow>
          let fPath = filepath_Join [DirRoot s, urlPath];
              feedBuilder =
                \<lparr>feed_ID = urlPath,
                 feed_Title = strings_Title (strings_TrimPrefix urlPath ''/''),
                 feed_Author = \<lparr>author_Name = Author s, author_Email = AuthorEmail s,
                                 author_URI = AuthorURI s\<rparr>,
                 feed_Updated = TimeNow g (),
                 feed_Links = [startLink],
                 feed_Entries = []\<rparr>
          in
          if urlPath = ''/'' then
            (case filepath_WalkDir (env_fs env) (DirRoot s) walkFn [] of
               Inl p \<Rightarrow> (Panicked p, g\<lparr>files := []\<rparr>)
             | Inr fls \<Rightarrow>
                 (serveFeed env g fPath (feedBuilder\<lparr>feed_Entries := rootEntries env g\<rparr>),
                  g\<lparr>files := fls\<rparr>))
          else if urlPath = ''/latest'' then
            (let g1 = g\<lparr>files := sortByLatest (files g)\<rparr>
             in case fileEntries s env g urlPath (files g1) of
                  Inl p \<Rightarrow> (Panicked p, g1)
                | Inr es \<Rightarrow>
                    (serveFeed env g (strings_TrimSuffix fPath ''/latest'')
                       (feedBuilder\<lparr>feed_Entries := es\<rparr>), g1))
          else if urlPath = ''/titles'' then
            (let g1 = g\<lparr>files := sortByTitle (files g)\<rparr>
             in case fileEntries s env g urlPath (files g1) of
                  Inl p \<Rightarrow> (Panicked p, g1)
                | Inr es \<Rightarrow>
                    (serveFeed env g (strings_TrimSuffix fPath ''/titles'')
                       (feedBuilder\<lparr>feed_Entries := es\<rparr>), g1))
          else
            (case getPathType (env_fs env) fPath of
               Inl p \<Rightarrow> (Panicked p, g)
             | Inr pathType \<Rightarrow>
                 if pathType = pathTypeFile then (ServedFile fPath, g)
                 else (serveFeed env g fPath feedBuilder, g)))"

text \<open>The process: the package is initialised in one environment, then requests are
  served one after another, each in the environment of its own moment. A panic ends the
  request, not the process (the HTTP server recovers it), so the run goes on.\<close>

fun serve :: "OPDS \<Rightarrow> globals \<Rightarrow> (environment \<times> string) list \<Rightarrow> response list" where
  "serve s g [] = []"
| "serve s g (r # rs) = fst (Handler s (fst r) g (snd r)) # serve s (snd (Handler s (fst r) g (snd r))) rs"

definition run :: "OPDS \<Rightarrow> environment \<Rightarrow> (environment \<times> string) list \<Rightarrow> response list" where
  "run s env0 reqs = serve s (package_init env0) reqs"

subsection \<open>Reading a response\<close>

fun feed_of :: "document \<Rightarrow> opds_Feed" where
  "feed_of (NavigationFeed f) = f"
| "feed_of (AcquisitionFeed f dc opds) = f"

fun served_feed :: "response \<Rightarrow> opds_Feed option" where
  "served_feed (ServedContent ctype doc t) = Some (feed_of doc)"
| "served_feed (ReturnedError e) = None"
| "served_feed (Panicked p) = None"
| "served_feed (ServedFile f) = None"

fun served_type :: "response \<Rightarrow> string option" where
  "served_type (ServedContent ctype doc t) = Some ctype"
| "served_type (ReturnedError e) = None"
| "served_type (Panicked p) = None"
| "served_type (ServedFile f) = None"

text \<open>Every time a response carries: the modification time given to
  \<open>http.ServeContent\<close>, the feed's \<open>updated\<close>, and each entry's \<open>updated\<close> and
  \<open>published\<close>.\<close>

fun stamps :: "response \<Rightarrow> int list" where
  "stamps (ServedContent ctype doc t) =
     t # feed_Updated (feed_of doc)
       # concat (map (\<lambda>e. [entry_Updated e, entry_Published e]) (feed_Entries (feed_of doc)))"
| "stamps (ReturnedError e) = []"
| "stamps (Panicked p) = []"
| "stamps (ServedFile f) = []"


subsection \<open>A catalog to run the service on\<close>

text \<open>The scenario of the spec: a catalog root with \<open>a.epub\<close> (modified at 100) and a
  directory \<open>sub\<close> with \<open>b.epub\<close> (modified at 200); beside them a directory \<open>books\<close>
  that holds only the empty directory \<open>sci fi\<close>. Next to the catalog, a directory
  \<open>/shelf\<close> with nothing but a sub-directory, and the empty directory \<open>/void\<close>. The
  process runs in \<open>/srv\<close>.\<close>

definition demo_sub :: node where
  "demo_sub = DirNode 40 [(''b.epub'', FileNode 200)]"

definition demo_srv :: node where
  "demo_srv = DirNode 50 [(''sub'', demo_sub), (''books'', DirNode 30 [(''sci fi'', DirNode 20 [])]),
                          (''a.epub'', FileNode 100)]"

definition demo_fs :: filesystem where
  "demo_fs = \<lparr>fs_root = DirNode 10 [(''srv'', demo_srv), (''shelf'', DirNode 60 [(''sub'', demo_sub)]),
                                     (''void'', DirNode 70 [])],
              fs_cwd = [''srv'']\<rparr>"

definition demo_mime :: "string \<Rightarrow> string" where
  "demo_mime ext = (if ext = ''.epub'' then ''application/epub+zip'' else [])"

text \<open>The environment at start-up (instant 1000) and at two later moments.\<close>

definition boot_env :: environment where
  "boot_env = \<lparr>env_fs = demo_fs, env_mime = demo_mime, env_now = 1000\<rparr>"

definition env_at :: "int \<Rightarrow> environment" where
  "env_at t = \<lparr>env_fs = demo_fs, env_mime = demo_mime, env_now = t\<rparr>"

definition svc :: OPDS where
  "svc = \<lparr>DirRoot = ''/srv'', Author = ''dir2opds'', AuthorEmail = [], AuthorURI = []\<rparr>"

definition svc_void :: OPDS where
  "svc_void = \<lparr>DirRoot = ''/void'', Author = ''dir2opds'', AuthorEmail = [], AuthorURI = []\<rparr>"

definition svc_dot :: OPDS where
  "svc_dot = \<lparr>DirRoot = ''.'', Author = ''dir2opds'', AuthorEmail = [], AuthorURI = []\<rparr>"

text \<open>The package-level variables after the first request for \<open>/\<close>, and after a request
  for \<open>/latest\<close> that follows it.\<close>

definition after_root :: globals where
  "after_root = snd (Handler svc (env_at 2000) (package_init boot_env) ''/'')"

definition after_latest :: globals where
  "after_latest = snd (Handler svc (env_at 3000) after_root ''/latest'')"

text \<open>The same catalog served by a process started with \<open>.\<close> as its root, after the
  first request for \<open>/\<close>.\<close>

definition after_root_dot :: globals where
  "after_root_dot = snd (Handler svc_dot (env_at 2000) (package_init boot_env) ''/'')"

text \<open>A snapshot of seven files in seven directories, in the order of a walk.\<close>

definition mk_file :: "string \<Rightarrow> string \<Rightarrow> int \<Rightarrow> BookFile" where
  "mk_file dir name t =
     \<lparr>Name = name, Path = dir @ CHR ''/'' # name, BookAuthor = [],
      FileInfo = \<lparr>fi_Name = name, fi_IsDir = False, fi_ModTime = t\<rparr>\<rparr>"

definition seven_files :: "BookFile list" where
  "seven_files =
     [mk_file ''d0'' ''m.epub'' 5, mk_file ''d1'' ''m.epub'' 5, mk_file ''d2'' ''a.epub'' 9,
      mk_file ''d3'' ''a.epub'' 9, mk_file ''d4'' ''a.epub'' 9, mk_file ''d5'' ''a.epub'' 9,
      mk_file ''d6'' ''c.epub'' 7]"

subsection \<open>Vocabulary for the correctness of the sort\<close>

text \<open>\<open>touches_only xs ys a b\<close>: \<open>ys\<close> holds the elements of \<open>xs\<close>, and differs from it
  at most at the indices from \<open>a\<close> up to \<open>b - 1\<close>.\<close>

definition touches_only :: "'a list \<Rightarrow> 'a list \<Rightarrow> nat \<Rightarrow> nat \<Rightarrow> bool" where
  "touches_only xs ys a b =
     (length ys = length xs \<and> mset ys = mset xs
      \<and> (\<forall>i < length xs. i < a \<or> b \<le> i \<longrightarrow> ys ! i = xs ! i))"

text \<open>The keys at the indices from \<open>a\<close> up to \<open>b - 1\<close> do not decrease.\<close>

definition sorted_range :: "('a \<Rightarrow> 'k::linorder) \<Rightarrow> 'a list \<Rightarrow> nat \<Rightarrow> nat \<Rightarrow> bool" where
  "sorted_range key xs a b = (\<forall>i j. a \<le> i \<and> i < j \<and> j < b \<longrightarrow> key (xs ! i) \<le> key (xs ! j))"

text \<open>Every element at an index from \<open>a\<close> up to \<open>b - 1\<close> satisfies \<open>P\<close>.\<close>

definition all_range :: "('a \<Rightarrow> bool) \<Rightarrow> 'a list \<Rightarrow> nat \<Rightarrow> nat \<Rightarrow> bool" where
  "all_range P xs a b = (\<forall>i. a \<le> i \<and> i < b \<longrightarrow> P (xs ! i))"

text \<open>The heap of \<open>heapSort_func\<close> lies at the offset \<open>first\<close>; its order is
  stated on the keys by their index in the heap.\<close>

definition keys_from :: "('a \<Rightarrow> 'k) \<Rightarrow> 'a list \<Rightarrow> nat \<Rightarrow> nat \<Rightarrow> 'k" where
  "keys_from key xs first k = key (xs ! (first + k))"

definition heap_fn :: "(nat \<Rightarrow> 'k::linorder) \<Rightarrow> nat \<Rightarrow> nat \<Rightarrow> bool" where
  "heap_fn f hi k = ((2 * k + 1 < hi \<longrightarrow> f (2 * k + 1) \<le> f k) \<and> (2 * k + 2 < hi \<longrightarrow> f (2 * k + 2) \<le> f k))"

definition is_heap :: "('a \<Rightarrow> 'k::linorder) \<Rightarrow> 'a list \<Rightarrow> nat \<Rightarrow> nat \<Rightarrow> nat \<Rightarrow> bool" where
  "is_heap key xs first lo hi = (\<forall>k. lo \<le> k \<and> k < hi \<longrightarrow> heap_fn (keys_from key xs first) hi k)"

text \<open>The state of \<open>doPivot_func\<close> after its main loop: the pivot at \<open>lo\<close>, then keys
  that are at most the pivot's, from \<open>b\<close> keys equal to it, from \<open>c\<close> keys that are at
  least the pivot's.\<close>

definition part3 ::
  "('a \<Rightarrow> 'k::linorder) \<Rightarrow> 'a list \<Rightarrow> nat \<Rightarrow> nat \<Rightarrow> nat \<Rightarrow> nat \<Rightarrow> 'k \<Rightarrow> bool" where
  "part3 key xs lo b c hi pk =
     (lo < b \<and> b \<le> c \<and> c \<le> hi \<and> hi \<le> length xs \<and> key (xs ! lo) = pk
      \<and> all_range (\<lambda>x. key x \<le> pk) xs (Suc lo) b
      \<and> all_range (\<lambda>x. key x = pk) xs b c
      \<and> all_range (\<lambda>x. pk \<le> key x) xs c hi)"

section \<open>Properties of the classification and of the link relation\<close>

lemma getPathType_loop_eq:
  "getPathType_loop (map (\<lambda>(name, n). info_of name n) cs) =
     Inr (if \<exists>e \<in> set cs. \<not> is_dir (snd e) then pathTypeDirOfFiles else pathTypeDirOfDirs)"
  by (induction cs) (auto simp: info_of_def)

lemma getPathType_dir:
  "resolve fs D = Some (DirNode t cs) \<Longrightarrow>
   getPathType fs D =
     Inr (if \<exists>e \<in> set cs. \<not> is_dir (snd e) then pathTypeDirOfFiles else pathTypeDirOfDirs)"
  by (simp add: getPathType_def os_Stat_def info_of_def ioutil_ReadDir_def readdir_sorted_def
      getPathType_loop_eq [unfolded info_of_def])

lemma getPathType_file:
  "resolve fs D = Some (FileNode t) \<Longrightarrow> getPathType fs D = Inr pathTypeFile"
  by (simp add: getPathType_def os_Stat_def info_of_def)

lemma getPathType_missing:
  "resolve fs D = None \<Longrightarrow> getPathType fs D = Inl NilPointerDereference"
  by (simp add: getPathType_def os_Stat_def)

lemma getPathType_present:
  "resolve fs D = Some n \<Longrightarrow> \<exists>pt. getPathType fs D = Inr pt"
  by (cases n) (simp_all add: getPathType_dir getPathType_file)


lemma resolve_void: "resolve demo_fs ''/void'' = Some (DirNode 70 [])"
  by (simp add: resolve_def demo_fs_def)

lemma resolve_srv: "resolve demo_fs ''/srv'' = Some demo_srv"
  by (simp add: resolve_def demo_fs_def)






text \<open>
  Claim C2. For a name and one of the three classifications: the relation is the
  thumbnail relation exactly when the classification is a file and the extension of the
  name is one of \<open>.png\<close>, \<open>.jpg\<close>, \<open>.jpeg\<close>, \<open>.gif\<close>; it is \<open>subsection\<close> exactly when
  the classification is one of the two directory kinds; and it is the acquisition relation
  for a file with any other extension.
\<close>

theorem getRel_cases:
  assumes "pt = pathTypeFile \<or> pt = pathTypeDirOfFiles \<or> pt = pathTypeDirOfDirs"
  shows "(getRel name pt = ''http://opds-spec.org/image/thumbnail'' \<longleftrightarrow>
            pt = pathTypeFile \<and> filepath_Ext name \<in> {''.png'', ''.jpg'', ''.jpeg'', ''.gif''})
       \<and> (getRel name pt = ''subsection'' \<longleftrightarrow> pt = pathTypeDirOfFiles \<or> pt = pathTypeDirOfDirs)
       \<and> (pt = pathTypeFile \<and> filepath_Ext name \<notin> {''.png'', ''.jpg'', ''.jpeg'', ''.gif''}
            \<longrightarrow> getRel name pt = ''http://opds-spec.org/acquisition'')"
proof -
  consider "pt = pathTypeFile" | "pt = pathTypeDirOfFiles" | "pt = pathTypeDirOfDirs"
    using assms by blast
  then show ?thesis
  proof cases
    case 1
    then show ?thesis
      by (simp add: getRel_def Let_def pathTypeFile_def pathTypeDirOfFiles_def pathTypeDirOfDirs_def)
  next
    case 2
    then show ?thesis
      by (simp add: getRel_def Let_def pathTypeFile_def pathTypeDirOfFiles_def pathTypeDirOfDirs_def)
  next
    case 3
    then show ?thesis
      by (simp add: getRel_def Let_def pathTypeFile_def pathTypeDirOfFiles_def pathTypeDirOfDirs_def)
  qed
qed

theorem getRel_cases_witness:
  "getRel ''cover.png'' pathTypeFile = ''http://opds-spec.org/image/thumbnail''
   \<and> getRel ''cover.png'' pathTypeDirOfFiles = ''subsection''
   \<and> getRel ''cover.PNG'' pathTypeFile = ''http://opds-spec.org/acquisition''"
proof -
  have e1: "filepath_Ext ''cover.png'' = ''.png''" by (simp add: filepath_Ext_def)
  have e2: "filepath_Ext ''cover.PNG'' = ''.PNG''" by (simp add: filepath_Ext_def)
  have c1: "getRel ''cover.png'' pathTypeFile = ''http://opds-spec.org/image/thumbnail''"
    using getRel_cases [of pathTypeFile "''cover.png''", THEN conjunct1] e1 by simp
  have c2: "getRel ''cover.png'' pathTypeDirOfFiles = ''subsection''"
    using getRel_cases [of pathTypeDirOfFiles "''cover.png''", THEN conjunct2, THEN conjunct1] by simp
  have c3: "getRel ''cover.PNG'' pathTypeFile = ''http://opds-spec.org/acquisition''"
    using getRel_cases [of pathTypeFile "''cover.PNG''", THEN conjunct2, THEN conjunct2] e2 by simp
  show ?thesis using c1 c2 c3 by simp
qed

section \<open>Paths: cleaning, joining and resolution\<close>

lemma splitSep_nonempty: "splitSep p \<noteq> []"
  by (induction p) auto

lemma splitSep_append: "splitSep (a @ CHR ''/'' # b) = splitSep a @ splitSep b"
proof (induction a)
  case Nil
  then show ?case by simp
next
  case (Cons c a)
  then show ?case using splitSep_nonempty [of a] 
    by (cases "splitSep a") auto
qed

lemma clean_elems_append:
  "clean_elems r out (xs @ ys) = clean_elems r (clean_elems r out xs) ys"
  by (induction xs arbitrary: out) auto

lemma hd_splitSep_no_sep: "CHR ''/'' \<notin> set (hd (splitSep p))"
  by (induction p) auto

lemma splitSep_no_sep: "e \<in> set (splitSep p) \<Longrightarrow> CHR ''/'' \<notin> set e"
proof (induction p arbitrary: e)
  case Nil
  then show ?case by simp
next
  case (Cons c p)
  show ?case
  proof (cases "c = CHR ''/''")
    case True
    then show ?thesis using Cons by auto
  next
    case False
    then have "e = c # hd (splitSep p) \<or> e \<in> set (tl (splitSep p))"
      using Cons.prems by simp
    then show ?thesis
      using False hd_splitSep_no_sep [of p] Cons.IH [of e] splitSep_nonempty [of p]
      by (auto dest: list.set_sel(2))
  qed
qed

lemma splitSep_no_sep_id: "CHR ''/'' \<notin> set e \<Longrightarrow> splitSep e = [e]"
  by (induction e) auto

lemma splitSep_joinSep:
  "es \<noteq> [] \<Longrightarrow> (\<forall>e \<in> set es. CHR ''/'' \<notin> set e) \<Longrightarrow> splitSep (joinSep es) = es"
proof (induction es rule: joinSep.induct)
  case 1
  then show ?case by simp
next
  case (2 x)
  then show ?case by (simp add: splitSep_no_sep_id)
next
  case (3 x y zs)
  then show ?case by (simp add: splitSep_append splitSep_no_sep_id)
qed


lemma namei_append:
  "namei st (xs @ ys) = (case namei st xs of None \<Rightarrow> None | Some s \<Rightarrow> namei s ys)"
  by (induction st xs rule: namei.induct) (auto split: list.splits option.splits)

lemma namei_nonempty: "namei st es = Some s \<Longrightarrow> st \<noteq> [] \<Longrightarrow> s \<noteq> []"
  by (induction st es rule: namei.induct) (auto split: list.splits option.splits if_splits)

lemma namei_name:
  assumes "namei s [l] = Some st" "l \<noteq> []" "l \<noteq> ''.''" "l \<noteq> ''..''"
  shows "tl st = s \<and> st \<noteq> []"
  using assms by (auto split: list.splits option.splits if_splits)

definition clean_inv :: "bool \<Rightarrow> node list \<Rightarrow> string list \<Rightarrow> node list \<Rightarrow> bool" where
  "clean_inv rooted st0 out st =
     (namei st0 out = Some st \<and> st0 \<noteq> [] \<and> (\<forall>e \<in> set out. e \<noteq> [] \<and> e \<noteq> ''.'')
      \<and> (rooted \<longrightarrow> ''..'' \<notin> set out \<and> length st0 = 1))"

lemma clean_inv_step:
  assumes inv: "clean_inv rooted st0 out st"
    and run: "namei st (e # es) = Some st'"
  shows "\<exists>out1 st1. clean_elems rooted out (e # es) = clean_elems rooted out1 es
           \<and> clean_inv rooted st0 out1 st1 \<and> namei st1 es = Some st'"
proof -
  from inv have n0: "namei st0 out = Some st" and st0: "st0 \<noteq> []"
    and ne: "\<forall>e \<in> set out. e \<noteq> [] \<and> e \<noteq> ''.''"
    and rt: "rooted \<longrightarrow> ''..'' \<notin> set out \<and> length st0 = 1"
    by (auto simp: clean_inv_def)
  from n0 st0 have stne: "st \<noteq> []" by (rule namei_nonempty)
  then obtain d up where st: "st = d # up" by (cases st) auto
  from run st have dir: "is_dir d" by (auto split: if_splits)
  consider (stay) "e = [] \<or> e = ''.''" | (up) "e = ''..''" | (name) "e \<noteq> []" "e \<noteq> ''.''" "e \<noteq> ''..''"
    by blast
  then show ?thesis
  proof cases
    case stay
    then have "clean_elems rooted out (e # es) = clean_elems rooted out es" by auto
    moreover have "namei st es = Some st'" using run st dir stay by auto
    ultimately show ?thesis using inv by blast
  next
    case up
    have run': "namei (if up = [] then st else up) es = Some st'"
      using run st dir \<open>e = ''..''\<close> by (auto split: if_splits)
    show ?thesis
    proof (cases "out \<noteq> [] \<and> last out \<noteq> ''..''")
      case True
      then have out: "out = butlast out @ [last out]" by simp
      have l: "last out \<noteq> []" "last out \<noteq> ''.''" using ne True by auto
      obtain s where s: "namei st0 (butlast out) = Some s" and s2: "namei s [last out] = Some st"
        using n0 out namei_append [of st0 "butlast out" "[last out]"]
        by (auto split: option.splits)
      have "tl st = s \<and> st \<noteq> []" using namei_name [OF s2 l(1) l(2)] True by simp
      then have ups: "up = s" using st by simp
      have "s \<noteq> []" using s st0 by (rule namei_nonempty)
      then have r2: "namei s es = Some st'" using run' ups by simp
      have "clean_inv rooted st0 (butlast out) s"
        using s st0 ne rt by (auto simp: clean_inv_def dest: in_set_butlastD)
      moreover have "clean_elems rooted out (e # es) = clean_elems rooted (butlast out) es"
        using True \<open>e = ''..''\<close> by simp
      ultimately show ?thesis using r2 by blast
    next
      case False
      show ?thesis
      proof (cases rooted)
        case True
        then have "out = []" using False rt by (cases out rule: rev_cases) auto
        then have "st = st0" using n0 by simp
        then have "up = []" using rt True st by (cases up) auto
        then have "namei st es = Some st'" using run' by simp
        moreover have "clean_elems rooted out (e # es) = clean_elems rooted out es"
          using False True \<open>e = ''..''\<close> by auto
        ultimately show ?thesis using inv by blast
      next
        case nr: False
        have "namei st0 (out @ [''..'']) = Some (if up = [] then st else up)"
          using n0 st dir by (simp add: namei_append)
        then have "clean_inv rooted st0 (out @ [''..'']) (if up = [] then st else up)"
          using st0 ne nr by (auto simp: clean_inv_def)
        moreover have "clean_elems rooted out (e # es) = clean_elems rooted (out @ [''..'']) es"
          using False nr \<open>e = ''..''\<close> by auto
        ultimately show ?thesis using run' by blast
      qed
    qed
  next
    case name
    then obtain n where n: "map_of (entries d) e = Some n" and r2: "namei (n # st) es = Some st'"
      using run st dir by (auto split: option.splits)
    have "namei st0 (out @ [e]) = Some (n # st)"
      using n0 st dir n name by (simp add: namei_append)
    then have "clean_inv rooted st0 (out @ [e]) (n # st)"
      using st0 ne rt name by (auto simp: clean_inv_def)
    moreover have "clean_elems rooted out (e # es) = clean_elems rooted (out @ [e]) es"
      using name by simp
    ultimately show ?thesis using r2 by blast
  qed
qed

lemma clean_inv_run:
  "clean_inv rooted st0 out st \<Longrightarrow> namei st es = Some st' \<Longrightarrow>
   clean_inv rooted st0 (clean_elems rooted out es) st'"
proof (induction es arbitrary: out st)
  case Nil
  then show ?case by simp
next
  case (Cons e es)
  obtain out1 st1 where "clean_elems rooted out (e # es) = clean_elems rooted out1 es"
    "clean_inv rooted st0 out1 st1" "namei st1 es = Some st'"
    using clean_inv_step [OF Cons.prems] by blast
  then show ?case using Cons.IH by simp
qed


lemma clean_elems_no_sep:
  "(\<forall>e \<in> set out. CHR ''/'' \<notin> set e) \<Longrightarrow> (\<forall>e \<in> set es. CHR ''/'' \<notin> set e) \<Longrightarrow>
   (\<forall>e \<in> set (clean_elems r out es). CHR ''/'' \<notin> set e)"
proof (induction es arbitrary: out)
  case Nil
  then show ?case by simp
next
  case (Cons e es)
  have b: "\<forall>x \<in> set (butlast out). CHR ''/'' \<notin> set x"
    using Cons.prems(1) by (auto dest: in_set_butlastD)
  have a1: "\<forall>x \<in> set (out @ [e]). CHR ''/'' \<notin> set x" using Cons.prems by auto
  have a2: "\<forall>x \<in> set (out @ [''..'']). CHR ''/'' \<notin> set x" using Cons.prems by auto
  have t: "\<forall>x \<in> set es. CHR ''/'' \<notin> set x" using Cons.prems by auto
  show ?case
    using Cons.IH [OF Cons.prems(1) t] Cons.IH [OF b t] Cons.IH [OF a1 t] Cons.IH [OF a2 t]
    by (simp del: set_append)
qed

lemma joinSep_hd:
  "es \<noteq> [] \<Longrightarrow> (\<forall>e \<in> set es. e \<noteq> [] \<and> CHR ''/'' \<notin> set e) \<Longrightarrow>
   joinSep es \<noteq> [] \<and> hd (joinSep es) \<noteq> CHR ''/''"
proof (induction es rule: joinSep.induct)
  case 1
  then show ?case by simp
next
  case (2 x)
  then show ?case by (cases x) auto
next
  case (3 x y zs)
  then show ?case by (cases x) auto
qed

lemma resolve_Clean:
  assumes "resolve fs p = Some n"
  shows "resolve fs (filepath_Clean p) = Some n"
proof -
  from assms have p: "p \<noteq> []" by (auto simp: resolve_def split: if_splits)
  define rooted where "rooted = (hd p = CHR ''/'')"
  define st0 where "st0 = (if rooted then Some [fs_root fs] else namei [fs_root fs] (fs_cwd fs))"
  from assms p obtain s0 st where s0: "st0 = Some s0" and run: "namei s0 (splitSep p) = Some st"
    and stn: "st \<noteq> []" "hd st = n"
    unfolding resolve_def st0_def rooted_def
    by (auto split: option.splits list.splits if_splits)
  have s0ne: "s0 \<noteq> []"
    using s0 namei_nonempty [of "[fs_root fs]" "fs_cwd fs" s0]
    by (auto simp: st0_def split: if_splits)
  define out where "out = clean_elems rooted [] (splitSep p)"
  have inv0: "clean_inv rooted s0 [] s0"
    using s0 s0ne by (auto simp: clean_inv_def st0_def split: if_splits)
  have inv: "clean_inv rooted s0 out st"
    unfolding out_def by (rule clean_inv_run [OF inv0 run])
  then have nout: "namei s0 out = Some st" and one: "\<forall>e \<in> set out. e \<noteq> [] \<and> e \<noteq> ''.''"
    by (auto simp: clean_inv_def)
  have nosep: "\<forall>e \<in> set out. CHR ''/'' \<notin> set e"
    unfolding out_def using clean_elems_no_sep [of "[]" "splitSep p" rooted] splitSep_no_sep [of _ p]
    by auto
  obtain e0 es0 where sp: "splitSep p = e0 # es0"
    using splitSep_nonempty [of p] by (cases "splitSep p") auto
  obtain d0 up0 where s0c: "s0 = d0 # up0" using s0ne by (cases s0) auto
  have dir0: "is_dir d0" using run sp s0c by (auto split: if_splits)
  show ?thesis
  proof (cases rooted)
    case True
    then have c: "filepath_Clean p = CHR ''/'' # joinSep out"
      using p by (simp add: filepath_Clean_def rooted_def out_def Let_def)
    have s0r: "s0 = [fs_root fs]" using s0 True by (simp add: st0_def)
    have "namei s0 (splitSep (joinSep out)) = Some st"
    proof (cases "out = []")
      case True
      then have "st = d0 # up0" using nout s0c by simp
      then show ?thesis using True s0c dir0 by simp
    next
      case False
      then show ?thesis using nout nosep by (simp add: splitSep_joinSep)
    qed
    then have "namei [fs_root fs] (splitSep (CHR ''/'' # joinSep out)) = Some st"
      using s0r s0c dir0 by simp
    then show ?thesis using c stn by (cases st) (auto simp: resolve_def)
  next
    case False
    show ?thesis
    proof (cases "out = []")
      case True
      then have c: "filepath_Clean p = ''.''"
        using p False by (simp add: filepath_Clean_def rooted_def out_def Let_def)
      have "st = s0" using nout True by simp
      then have "namei s0 (splitSep ''.'') = Some st" using s0c dir0 by simp
      then show ?thesis using c stn s0 False
        by (cases st) (auto simp: resolve_def st0_def)
    next
      case ne: False
      then have c: "filepath_Clean p = joinSep out"
        using p False by (simp add: filepath_Clean_def rooted_def out_def Let_def)
      have h: "joinSep out \<noteq> [] \<and> hd (joinSep out) \<noteq> CHR ''/''"
        using joinSep_hd [of out] ne one nosep by auto
      have "namei s0 (splitSep (joinSep out)) = Some st"
        using nout nosep ne by (simp add: splitSep_joinSep)
      then show ?thesis using c stn s0 False h
        by (cases st) (auto simp: resolve_def st0_def)
    qed
  qed
qed

lemma Join_root:
  assumes "d \<noteq> []"
  shows "filepath_Join [d, ''/''] = filepath_Clean d"
proof -
  have j: "joinSep [d, ''/''] = d @ CHR ''/'' # ''/''" by simp
  have sp: "splitSep (d @ CHR ''/'' # ''/'') = splitSep d @ [[], []]"
    by (simp add: splitSep_append)
  have "clean_elems r [] (splitSep d @ [[], []]) = clean_elems r [] (splitSep d)" for r
    by (simp add: clean_elems_append)
  then show ?thesis
    using assms by (simp add: filepath_Join_def filepath_Clean_def sp Let_def del: splitSep.simps)
qed


lemma clean_elems_pred:
  "(\<forall>e \<in> set out. P e) \<Longrightarrow> (\<forall>e \<in> set es. e \<noteq> [] \<and> e \<noteq> ''.'' \<longrightarrow> P e) \<Longrightarrow> P ''..'' \<Longrightarrow>
   (\<forall>e \<in> set (clean_elems r out es). P e)"
proof (induction es arbitrary: out)
  case Nil
  then show ?case by simp
next
  case (Cons e es)
  have b: "\<forall>x \<in> set (butlast out). P x"
    using Cons.prems(1) by (auto dest: in_set_butlastD)
  have a2: "\<forall>x \<in> set (out @ [''..'']). P x" using Cons.prems by auto
  have t: "\<forall>x \<in> set es. x \<noteq> [] \<and> x \<noteq> ''.'' \<longrightarrow> P x" using Cons.prems by auto
  show ?case
  proof (cases "e = [] \<or> e = ''.''")
    case True
    then show ?thesis using Cons.IH [OF Cons.prems(1) t Cons.prems(3)] by auto
  next
    case False
    then have a1: "\<forall>x \<in> set (out @ [e]). P x" using Cons.prems by auto
    show ?thesis
      using False Cons.IH [OF Cons.prems(1) t Cons.prems(3)] Cons.IH [OF b t Cons.prems(3)]
        Cons.IH [OF a1 t Cons.prems(3)] Cons.IH [OF a2 t Cons.prems(3)]
      by (simp del: set_append)
  qed
qed

lemma clean_out_elems:
  "\<forall>e \<in> set (clean_elems r [] (splitSep p)). e \<noteq> [] \<and> e \<noteq> ''.'' \<and> CHR ''/'' \<notin> set e"
  using clean_elems_pred [of "[]" "\<lambda>e. e \<noteq> [] \<and> e \<noteq> ''.'' \<and> CHR ''/'' \<notin> set e" "splitSep p" r]
    splitSep_no_sep [of _ p]
  by auto

lemma joinSep_snoc: "es \<noteq> [] \<Longrightarrow> joinSep (es @ [x]) = joinSep es @ CHR ''/'' # x"
  by (induction es rule: joinSep.induct) auto

lemma Clean_trivial_iff:
  "(filepath_Clean d = ''.'' \<or> filepath_Clean d = ''/'')
     = (d = [] \<or> clean_elems (hd d = CHR ''/'') [] (splitSep d) = [])"
proof (cases "d = []")
  case True
  then show ?thesis by (simp add: filepath_Clean_def)
next
  case False
  define r where "r = (hd d = CHR ''/'')"
  define out where "out = clean_elems r [] (splitSep d)"
  have el: "\<forall>e \<in> set out. e \<noteq> [] \<and> e \<noteq> ''.'' \<and> CHR ''/'' \<notin> set e"
    unfolding out_def by (rule clean_out_elems)
  have c: "filepath_Clean d = (if r then CHR ''/'' # joinSep out else if out = [] then ''.'' else joinSep out)"
    using False by (simp add: filepath_Clean_def Let_def out_def r_def)
  show ?thesis
  proof (cases "out = []")
    case True
    then show ?thesis using c False by (auto simp: out_def r_def)
  next
    case ne: False
    then have h: "joinSep out \<noteq> [] \<and> hd (joinSep out) \<noteq> CHR ''/''"
      using joinSep_hd [of out] el by auto
    have "joinSep out \<noteq> ''.''"
    proof
      assume a: "joinSep out = ''.''"
      have "splitSep (joinSep out) = out" using ne el by (simp add: splitSep_joinSep)
      then have "out = [''.'']" using a by simp
      then show False using el by simp
    qed
    then have "filepath_Clean d \<noteq> ''.'' \<and> filepath_Clean d \<noteq> ''/''"
      using c ne h by (cases r) auto
    then show ?thesis using False ne by (simp add: out_def r_def)
  qed
qed

lemma Join_virtual:
  assumes c: "filepath_Clean d \<noteq> ''.''" "filepath_Clean d \<noteq> ''/''"
    and nm: "CHR ''/'' \<notin> set name" "name \<noteq> []" "name \<noteq> ''.''" "name \<noteq> ''..''"
  shows "filepath_Join [d, CHR ''/'' # name] = filepath_Clean d @ CHR ''/'' # name"
proof -
  from c have d: "d \<noteq> []" and ne: "clean_elems (hd d = CHR ''/'') [] (splitSep d) \<noteq> []"
    using Clean_trivial_iff [of d] by auto
  have sp: "splitSep (d @ CHR ''/'' # CHR ''/'' # name) = splitSep d @ [[], name]"
    using nm(1) splitSep_append [of d "CHR ''/'' # name"] by (simp add: splitSep_no_sep_id)
  have ce: "clean_elems r [] (splitSep d @ [[], name]) = clean_elems r [] (splitSep d) @ [name]" for r
    using nm by (simp add: clean_elems_append)
  have j: "filepath_Join [d, CHR ''/'' # name] = filepath_Clean (d @ CHR ''/'' # CHR ''/'' # name)"
    using d by (simp add: filepath_Join_def)
  show ?thesis
  proof (cases "hd d = CHR ''/''")
    case True
    then have "filepath_Clean (d @ CHR ''/'' # CHR ''/'' # name)
        = CHR ''/'' # joinSep (clean_elems True [] (splitSep d) @ [name])"
      using d by (simp add: filepath_Clean_def sp ce Let_def del: splitSep.simps)
    moreover have "filepath_Clean d = CHR ''/'' # joinSep (clean_elems True [] (splitSep d))"
      using d True by (simp add: filepath_Clean_def Let_def)
    ultimately show ?thesis using j ne True by (simp add: joinSep_snoc)
  next
    case False
    then have "filepath_Clean (d @ CHR ''/'' # CHR ''/'' # name)
        = joinSep (clean_elems False [] (splitSep d) @ [name])"
      using d by (simp add: filepath_Clean_def sp ce Let_def del: splitSep.simps)
    moreover have "filepath_Clean d = joinSep (clean_elems False [] (splitSep d))"
      using d False ne by (simp add: filepath_Clean_def Let_def)
    ultimately show ?thesis using j ne False by (simp add: joinSep_snoc)
  qed
qed

lemma TrimSuffix_append: "strings_TrimSuffix (x @ sfx) sfx = x"
  by (simp add: strings_TrimSuffix_def strings_HasSuffix_def)

section \<open>Properties of the handler\<close>

lemma walkDir_total:
  assumes "\<And>p d s. \<exists>r. fn p (Some d) s = Inr r"
  shows "\<exists>r. walkDir fn path d st = Inr r" and "\<exists>r. walkDir_each fn path ds st = Inr r"
  using assms
proof (induction fn path d st and fn path ds st rule: walkDir_walkDir_each.induct)
  case (1 fn path d st)
  obtain r where r: "fn path (Some d) st = Inr r" using "1.prems" by blast
  show ?case
  proof (cases "is_dir (snd d)")
    case True
    then show ?thesis using r "1.IH" [OF r] "1.prems" by simp
  next
    case False
    then show ?thesis using r by simp
  qed
next
  case (2 fn path st)
  then show ?case by simp
next
  case (3 fn path d1 ds st)
  obtain r where r: "walkDir fn (filepath_Join [path, fst d1]) d1 st = Inr r"
    using "3.IH"(1) "3.prems" by blast
  then show ?case using "3.IH"(2) [OF r] "3.prems" by simp
qed

lemma WalkDir_ok:
  "resolve fs root = Some n \<Longrightarrow> \<exists>fls. filepath_WalkDir fs root walkFn [] = Inr fls"
  using walkDir_total(1) [of walkFn root "(basename root, n)" "[]"]
  by (simp add: filepath_WalkDir_def)

lemma WalkDir_missing:
  "resolve fs root = None \<Longrightarrow> filepath_WalkDir fs root walkFn [] = Inl NilPointerDereference"
  by (simp add: filepath_WalkDir_def)

lemma resolve_nonempty: "resolve fs p = Some n \<Longrightarrow> p \<noteq> []"
  by (auto simp: resolve_def split: if_splits)

lemma root_fPath:
  "resolve fs d = Some n \<Longrightarrow> resolve fs (filepath_Join [d, ''/'']) = Some n"
  using Join_root [of d] resolve_Clean [of fs d n] resolve_nonempty [of fs d n] by simp

lemma rootEntries_explicit:
  "rootEntries env g =
     [\<lparr>entry_ID = ''/latest'', entry_Title = ''Latest'',
       entry_Updated = TimeNow g (), entry_Published = TimeNow g (),
       entry_Links = [\<lparr>link_Rel = ''subsection'', link_Title = ''Latest'',
                        link_Href = ''/latest'', link_Type = navigationType\<rparr>]\<rparr>,
      \<lparr>entry_ID = ''/titles'', entry_Title = ''By Title'',
       entry_Updated = TimeNow g (), entry_Published = TimeNow g (),
       entry_Links = [\<lparr>link_Rel = ''subsection'', link_Title = ''By Title'',
                        link_Href = ''/titles'', link_Type = navigationType\<rparr>]\<rparr>]"
proof -
  have e1: "url_PathEscape ''latest'' = ''latest''" by (simp add: shouldEscape_def)
  have e2: "url_PathEscape ''titles'' = ''titles''" by (simp add: shouldEscape_def)
  have j1: "filepath_Join [''/'', ''latest''] = ''/latest''"
    by (simp add: filepath_Join_def filepath_Clean_def)
  have j2: "filepath_Join [''/'', ''titles''] = ''/titles''"
    by (simp add: filepath_Join_def filepath_Clean_def)
  show ?thesis
    unfolding rootEntries_def e1 e2 j1 j2
    by (simp add: getRel_def getType_def navigationType_def
        pathTypeDirOfDirs_def pathTypeDirOfFiles_def pathTypeFile_def)
qed

lemma serveFeed_cases:
  "serveFeed env g fPath feed =
     (case getPathType (env_fs env) fPath of
        Inl p \<Rightarrow> Panicked p
      | Inr pt \<Rightarrow> ServedContent (if pt = pathTypeDirOfFiles then acquisitionType else navigationType)
                    (if pt = pathTypeDirOfFiles
                     then AcquisitionFeed feed ''http://purl.org/dc/terms/'' ''http://opds-spec.org/2010/catalog''
                     else NavigationFeed feed)
                    (TimeNow g ()))"
  by (simp add: serveFeed_def split: sum.splits)

lemma Handler_root:
  assumes "resolve (env_fs env) (DirRoot s) = Some n"
  shows "\<exists>pt feed. getPathType (env_fs env) (filepath_Join [DirRoot s, ''/'']) = Inr pt
           \<and> fst (Handler s env g ''/'') = serveFeed env g (filepath_Join [DirRoot s, ''/'']) feed
           \<and> served_feed (fst (Handler s env g ''/'')) = Some feed
           \<and> feed_Entries feed = rootEntries env g"
proof -
  obtain fls where w: "filepath_WalkDir (env_fs env) (DirRoot s) walkFn [] = Inr fls"
    using WalkDir_ok [OF assms] by blast
  obtain pt where pt: "getPathType (env_fs env) (filepath_Join [DirRoot s, ''/'']) = Inr pt"
    using getPathType_present [OF root_fPath [OF assms]] by blast
  show ?thesis
    using w pt by (simp add: Handler_def Let_def serveFeed_cases)
qed

text \<open>
  Claim C4. Whatever the catalog holds, an empty root included, the feed served for the
  request path \<open>/\<close> has exactly two entries: \<open>Latest\<close>, whose link goes to
  \<open>/latest\<close>, and \<open>By Title\<close>, whose link goes to \<open>/titles\<close>; no file of the catalog is
  an entry of it. The catalog root is any path that resolves.
\<close>

theorem root_feed_two_entries:
  assumes "resolve (env_fs env) (DirRoot s) = Some n"
  shows "\<exists>feed. served_feed (fst (Handler s env g ''/'')) = Some feed
           \<and> length (feed_Entries feed) = 2
           \<and> map entry_Title (feed_Entries feed) = [''Latest'', ''By Title'']
           \<and> map (\<lambda>e. map link_Href (entry_Links e)) (feed_Entries feed)
               = [[''/latest''], [''/titles'']]"
proof -
  obtain feed where f: "served_feed (fst (Handler s env g ''/'')) = Some feed"
    and e: "feed_Entries feed = rootEntries env g"
    using Handler_root [OF assms, of g] by blast
  show ?thesis using f e by (simp add: rootEntries_explicit)
qed

theorem root_feed_two_entries_witness:
  "(\<exists>feed. served_feed (fst (Handler svc_void (env_at 2000) (package_init boot_env) ''/'')) = Some feed
       \<and> map entry_Title (feed_Entries feed) = [''Latest'', ''By Title''])
   \<and> (\<exists>feed. served_feed (fst (Handler svc (env_at 2000) (package_init boot_env) ''/'')) = Some feed
       \<and> map entry_Title (feed_Entries feed) = [''Latest'', ''By Title''])"
proof -
  have v: "resolve (env_fs (env_at 2000)) (DirRoot svc_void) = Some (DirNode 70 [])"
    using resolve_void by (simp add: env_at_def svc_void_def)
  have w: "resolve (env_fs (env_at 2000)) (DirRoot svc) = Some demo_srv"
    using resolve_srv by (simp add: env_at_def svc_def)
  obtain f1 where f1: "served_feed (fst (Handler svc_void (env_at 2000) (package_init boot_env) ''/'')) = Some f1"
      "map entry_Title (feed_Entries f1) = [''Latest'', ''By Title'']"
    using root_feed_two_entries [OF v, of "package_init boot_env"] by auto
  obtain f2 where f2: "served_feed (fst (Handler svc (env_at 2000) (package_init boot_env) ''/'')) = Some f2"
      "map entry_Title (feed_Entries f2) = [''Latest'', ''By Title'']"
    using root_feed_two_entries [OF w, of "package_init boot_env"] by auto
  show ?thesis using f1 f2 by simp
qed

text \<open>
  Claim C5 says that a request whose decoded path names nothing in the file system fails
  with a not-found error handed to the transport, and never crashes. In the code such a
  request, on any path other than \<open>/\<close>, \<open>/latest\<close> and \<open>/titles\<close>, ends in the nil
  dereference of \<open>getPathType\<close>: \<open>Handler\<close> panics and returns nothing at all.
\<close>

theorem missing_path_panics:
  assumes "url_PathUnescape reqPath = Inr urlPath"
    and "urlPath \<noteq> ''/''" and "urlPath \<noteq> ''/latest''" and "urlPath \<noteq> ''/titles''"
    and "resolve (env_fs env) (filepath_Join [DirRoot s, urlPath]) = None"
  shows "Handler s env g reqPath = (Panicked NilPointerDereference, g)"
  using assms by (simp add: Handler_def Let_def getPathType_missing)

theorem missing_path_panics_witness:
  "url_PathUnescape ''/sub%2Fnope.epub'' = Inr ''/sub/nope.epub''
   \<and> resolve demo_fs ''/srv/sub/nope.epub'' = None
   \<and> fst (Handler svc (env_at 2000) after_root ''/sub%2Fnope.epub'') = Panicked NilPointerDereference"
proof -
  have u: "url_PathUnescape ''/sub%2Fnope.epub'' = Inr ''/sub/nope.epub''"
    by code_simp
  have j: "filepath_Join [DirRoot svc, ''/sub/nope.epub''] = ''/srv/sub/nope.epub''"
    by code_simp
  have r: "resolve demo_fs ''/srv/sub/nope.epub'' = None"
    by code_simp
  have r': "resolve (env_fs (env_at 2000)) (filepath_Join [DirRoot svc, ''/sub/nope.epub'']) = None"
    using r j by (simp add: env_at_def)
  show ?thesis
    using missing_path_panics [OF u _ _ _ r', of after_root] u r by simp
qed

text \<open>
  Claim C6 says that the response for \<open>/\<close> is always written as a navigation feed. In the
  code the kind follows the classification of the catalog root: with a file directly in
  the root the two synthetic entries go out as an acquisition feed.
\<close>

theorem root_feed_kind:
  assumes "resolve (env_fs env) (DirRoot s) = Some (DirNode t cs)"
  shows "served_type (fst (Handler s env g ''/''))
           = Some (if \<exists>e \<in> set cs. \<not> is_dir (snd e) then acquisitionType else navigationType)"
proof -
  have p: "getPathType (env_fs env) (filepath_Join [DirRoot s, ''/''])
             = Inr (if \<exists>e \<in> set cs. \<not> is_dir (snd e) then pathTypeDirOfFiles else pathTypeDirOfDirs)"
    using getPathType_dir [OF root_fPath [OF assms]] .
  obtain pt feed where "fst (Handler s env g ''/'') = serveFeed env g (filepath_Join [DirRoot s, ''/'']) feed"
    using Handler_root [OF assms, of g] by blast
  then show ?thesis using p
    by (simp add: serveFeed_cases pathTypeDirOfFiles_def pathTypeDirOfDirs_def)
qed

theorem root_feed_kind_witness:
  "served_type (fst (Handler svc (env_at 2000) (package_init boot_env) ''/'')) = Some acquisitionType
   \<and> served_type (fst (Handler svc_void (env_at 2000) (package_init boot_env) ''/'')) = Some navigationType"
proof -
  have v: "resolve (env_fs (env_at 2000)) (DirRoot svc_void) = Some (DirNode 70 [])"
    using resolve_void by (simp add: env_at_def svc_void_def)
  have w: "resolve (env_fs (env_at 2000)) (DirRoot svc)
      = Some (DirNode 50 [(''sub'', demo_sub), (''books'', DirNode 30 [(''sci fi'', DirNode 20 [])]),
                          (''a.epub'', FileNode 100)])"
    using resolve_srv by (simp add: env_at_def svc_def demo_srv_def)
  show ?thesis
    using root_feed_kind [OF v, of "package_init boot_env"] root_feed_kind [OF w, of "package_init boot_env"]
    by (simp add: demo_sub_def)
qed

lemma fileEntries_stamps:
  "fileEntries s env g u fls = Inr es \<Longrightarrow>
   \<forall>e \<in> set es. entry_Updated e = TimeNow g () \<and> entry_Published e = TimeNow g ()"
  by (induction fls arbitrary: es) (auto simp: fileEntry_def Let_def split: sum.splits)

lemma stamps_serveFeed:
  assumes "feed_Updated feed = TimeNow g ()"
    and "\<forall>e \<in> set (feed_Entries feed). entry_Updated e = TimeNow g () \<and> entry_Published e = TimeNow g ()"
  shows "\<forall>t \<in> set (stamps (serveFeed env g fPath feed)). t = TimeNow g ()"
  using assms by (auto simp: serveFeed_cases split: sum.splits)

lemma Handler_stamps: "\<forall>t \<in> set (stamps (fst (Handler s env g p))). t = TimeNow g ()"
proof (cases "url_PathUnescape p")
  case (Inl e)
  then show ?thesis by (simp add: Handler_def)
next
  case (Inr u)
  define fb where "fb = \<lparr>feed_ID = u, feed_Title = strings_Title (strings_TrimPrefix u ''/''),
       feed_Author = \<lparr>author_Name = Author s, author_Email = AuthorEmail s, author_URI = AuthorURI s\<rparr>,
       feed_Updated = TimeNow g (), feed_Links = [startLink], feed_Entries = []\<rparr>"
  have root: "\<forall>t \<in> set (stamps (serveFeed env g fp (fb\<lparr>feed_Entries := rootEntries env g\<rparr>))). t = TimeNow g ()" for fp
    by (rule stamps_serveFeed) (simp_all add: fb_def rootEntries_def)
  have virt: "fileEntries s env g u fls = Inr es \<Longrightarrow>
      \<forall>t \<in> set (stamps (serveFeed env g fp (fb\<lparr>feed_Entries := es\<rparr>))). t = TimeNow g ()" for fp fls es
    using fileEntries_stamps [of s env g u fls es]
    by (intro stamps_serveFeed) (simp_all add: fb_def)
  have plain: "\<forall>t \<in> set (stamps (serveFeed env g fp fb)). t = TimeNow g ()" for fp
    by (rule stamps_serveFeed) (simp_all add: fb_def)
  consider (r) "u = ''/''" | (l) "u = ''/latest''" | (t) "u = ''/titles''"
    | (o) "u \<noteq> ''/''" "u \<noteq> ''/latest''" "u \<noteq> ''/titles''" by blast
  then show ?thesis
  proof cases
    case r
    then show ?thesis using Inr root
      by (simp add: Handler_def Let_def fb_def split: sum.splits)
  next
    case l
    then show ?thesis using Inr virt
      by (simp add: Handler_def Let_def fb_def split: sum.splits)
  next
    case t
    then show ?thesis using Inr virt
      by (simp add: Handler_def Let_def fb_def split: sum.splits)
  next
    case o
    then show ?thesis using Inr plain
      by (simp add: Handler_def Let_def fb_def split: sum.splits)
  qed
qed

lemma Handler_TimeNow: "TimeNow (snd (Handler s env g p)) = TimeNow g"
  by (simp add: Handler_def Let_def split: sum.splits)

lemma serve_stamps:
  "\<forall>r \<in> set (serve s g reqs). \<forall>t \<in> set (stamps r). t = TimeNow g ()"
proof (induction reqs arbitrary: g)
  case Nil
  then show ?case by simp
next
  case (Cons r rs)
  show ?case
    using Cons.IH [of "snd (Handler s (fst r) g (snd r))"] Handler_stamps [of s "fst r" g "snd r"]
    by (simp add: Handler_TimeNow)
qed

text \<open>
  Claim C7. The instant read once when the package is initialised is the value of every
  \<open>updated\<close> and \<open>published\<close> field, and of the modification time of the document, in
  every response of the process, whatever the clock shows when a request is served.
\<close>

theorem timestamps_frozen:
  "\<forall>r \<in> set (run s env0 reqs). \<forall>t \<in> set (stamps r). t = env_now env0"
  using serve_stamps [of s "package_init env0" reqs]
  by (simp add: run_def package_init_def timeNowFunc_def)

theorem timestamps_frozen_witness:
  "map (\<lambda>r. length (stamps r)) (run svc boot_env [(env_at 2000, ''/''), (env_at 3000, ''/latest'')])
      = [6, 6]
   \<and> list_all (\<lambda>r. list_all (\<lambda>t. t = 1000) (stamps r))
        (run svc boot_env [(env_at 2000, ''/''), (env_at 3000, ''/latest'')])"
proof -
  have len: "map (\<lambda>r. length (stamps r)) (run svc boot_env [(env_at 2000, ''/''), (env_at 3000, ''/latest'')])
      = [6, 6]"
    by code_simp
  have n: "env_now boot_env = 1000" by (simp add: boot_env_def)
  have all: "\<forall>r \<in> set (run svc boot_env [(env_at 2000, ''/''), (env_at 3000, ''/latest'')]).
      \<forall>t \<in> set (stamps r). t = 1000"
    using timestamps_frozen [of svc boot_env "[(env_at 2000, ''/''), (env_at 3000, ''/latest'')]"]
    unfolding n .
  then have "list_all (\<lambda>r. list_all (\<lambda>t. t = 1000) (stamps r))
        (run svc boot_env [(env_at 2000, ''/''), (env_at 3000, ''/latest'')])"
    unfolding list_all_iff .
  then show ?thesis using len by (rule_tac conjI)
qed





text \<open>
  Claim C9 says that serving \<open>/latest\<close> or \<open>/titles\<close> leaves the stored snapshot as the
  walk left it. The walk of the catalog finds \<open>a.epub\<close> and then \<open>sub/b.epub\<close>; after
  the request for \<open>/latest\<close> the stored snapshot holds \<open>sub/b.epub\<close> first: the sort
  works on the array of \<open>files\<close> itself.
\<close>

theorem snapshot_reordered:
  "map Path (files after_root) = [''/srv/a.epub'', ''/srv/sub/b.epub'']
   \<and> map Path (files after_latest) = [''/srv/sub/b.epub'', ''/srv/a.epub'']"
  by code_simp

text \<open>
  Claim C10 says that for \<open>/latest\<close> and \<open>/titles\<close> the kind of the feed follows the
  classification of the catalog root. The handler finds the root by cutting the request
  path off the joined path; joined to the root \<open>.\<close> the path \<open>/latest\<close> becomes
  \<open>latest\<close>, from which nothing is cut, so the handler classifies a path \<open>latest\<close>
  instead of the root. With the catalog above as the working directory the root is a
  directory of files, and both requests end in the nil dereference of \<open>getPathType\<close>.
\<close>

theorem virtual_feed_root_dot:
  "map Path (files after_root_dot) = [''a.epub'', ''sub/b.epub'']
   \<and> getPathType demo_fs ''.'' = Inr pathTypeDirOfFiles
   \<and> strings_TrimSuffix (filepath_Join [''.'', ''/latest'']) ''/latest'' = ''latest''
   \<and> fst (Handler svc_dot (env_at 3000) after_root_dot ''/latest'') = Panicked NilPointerDereference
   \<and> fst (Handler svc_dot (env_at 3000) after_root_dot ''/titles'') = Panicked NilPointerDereference"
  by code_simp

section \<open>Correctness of the sort\<close>

subsection \<open>Ranges and what a step may change\<close>

lemma touches_only_refl: "touches_only xs xs a b"
  by (simp add: touches_only_def)

lemma touches_only_trans:
  "touches_only xs ys a b \<Longrightarrow> touches_only ys zs a b \<Longrightarrow> touches_only xs zs a b"
  by (simp add: touches_only_def)

lemma touches_only_mono:
  "touches_only xs ys a b \<Longrightarrow> a' \<le> a \<Longrightarrow> b \<le> b' \<Longrightarrow> touches_only xs ys a' b'"
  by (auto simp: touches_only_def)

lemma touches_only_length: "touches_only xs ys a b \<Longrightarrow> length ys = length xs"
  by (simp add: touches_only_def)

lemma touches_only_mset: "touches_only xs ys a b \<Longrightarrow> mset ys = mset xs"
  by (simp add: touches_only_def)

lemma touches_only_outside:
  "touches_only xs ys a b \<Longrightarrow> i < length xs \<Longrightarrow> i < a \<or> b \<le> i \<Longrightarrow> ys ! i = xs ! i"
  by (auto simp: touches_only_def)

lemma touches_only_Swap:
  "a \<le> i \<Longrightarrow> i < b \<Longrightarrow> a \<le> j \<Longrightarrow> j < b \<Longrightarrow> touches_only xs (Swap i j xs) a b"
  by (auto simp: touches_only_def Swap_def mset_swap nth_list_update)

lemma Swap_nth:
  "i < length xs \<Longrightarrow> j < length xs \<Longrightarrow>
   Swap i j xs ! k = (if k = i then xs ! j else if k = j then xs ! i else xs ! k)"
  by (auto simp: Swap_def nth_list_update)

lemma length_Swap [simp]: "length (Swap i j xs) = length xs"
  by (simp add: Swap_def)

lemma slice_mset:
  assumes t: "touches_only xs ys a b" and ab: "a \<le> b" and b: "b \<le> length xs"
  shows "mset (take (b - a) (drop a ys)) = mset (take (b - a) (drop a xs))"
proof -
  have len: "length ys = length xs" using t by (rule touches_only_length)
  have d: "zs = take a zs @ take (b - a) (drop a zs) @ drop b zs" for zs :: "'a list"
  proof -
    have e: "b - a + a = b" using ab by simp
    have "drop a zs = take (b - a) (drop a zs) @ drop (b - a) (drop a zs)"
      by (rule append_take_drop_id [symmetric])
    then have "drop a zs = take (b - a) (drop a zs) @ drop b zs" by (simp add: e)
    moreover have "zs = take a zs @ drop a zs" by simp
    ultimately show ?thesis by simp
  qed
  have ta: "take a ys = take a xs"
    using touches_only_outside [OF t] len ab b by (intro nth_equalityI) auto
  have db: "drop b ys = drop b xs"
    using touches_only_outside [OF t] len ab b by (intro nth_equalityI) auto
  have "mset ys = mset (take a ys @ take (b - a) (drop a ys) @ drop b ys)"
    using d [of ys] by simp
  then have "mset ys = mset (take a ys) + mset (take (b - a) (drop a ys)) + mset (drop b ys)"
    by (simp only: mset_append add.assoc)
  moreover have "mset xs = mset (take a xs @ take (b - a) (drop a xs) @ drop b xs)"
    using d [of xs] by simp
  then have "mset xs = mset (take a xs) + mset (take (b - a) (drop a xs)) + mset (drop b xs)"
    by (simp only: mset_append add.assoc)
  ultimately show ?thesis using touches_only_mset [OF t] ta db by simp
qed

lemma range_elem:
  assumes t: "touches_only xs ys a b" and b: "b \<le> length xs" and i: "a \<le> i" "i < b"
  shows "\<exists>j. a \<le> j \<and> j < b \<and> ys ! i = xs ! j"
proof -
  have ab: "a \<le> b" using i by simp
  have len: "length ys = length xs" using t by (rule touches_only_length)
  have "ys ! i = take (b - a) (drop a ys) ! (i - a)" using i b len by simp
  moreover have "i - a < length (take (b - a) (drop a ys))" using i b len by simp
  ultimately have "ys ! i \<in> set (take (b - a) (drop a ys))" by (metis nth_mem)
  then have "ys ! i \<in> set (take (b - a) (drop a xs))"
    using slice_mset [OF t ab b] by (metis set_mset_mset)
  then obtain k where k: "k < length (take (b - a) (drop a xs))" "take (b - a) (drop a xs) ! k = ys ! i"
    by (metis in_set_conv_nth)
  then have "xs ! (a + k) = ys ! i" using b by simp
  moreover have "a + k < b" using k(1) b by simp
  ultimately show ?thesis by (metis le_add1)
qed

lemma all_range_touched:
  assumes "touches_only xs ys a b" "b \<le> length xs" "all_range P xs a b"
  shows "all_range P ys a b"
  unfolding all_range_def
proof (intro allI impI)
  fix i assume i: "a \<le> i \<and> i < b"
  then obtain j where "a \<le> j \<and> j < b \<and> ys ! i = xs ! j"
    using range_elem [OF assms(1) assms(2), of i] by blast
  then show "P (ys ! i)" using assms(3) by (simp add: all_range_def)
qed

lemma all_range_untouched:
  assumes "touches_only xs ys a b" "d \<le> length xs" "d \<le> a \<or> b \<le> c" "all_range P xs c d"
  shows "all_range P ys c d"
  unfolding all_range_def
proof (intro allI impI)
  fix i assume i: "c \<le> i \<and> i < d"
  then have "ys ! i = xs ! i" using touches_only_outside [OF assms(1), of i] assms(2,3) by auto
  then show "P (ys ! i)" using assms(4) i by (simp add: all_range_def)
qed

lemma sorted_range_untouched:
  "touches_only xs ys a b \<Longrightarrow> d \<le> length xs \<Longrightarrow> d \<le> a \<or> b \<le> c \<Longrightarrow>
   sorted_range key xs c d \<Longrightarrow> sorted_range key ys c d"
  unfolding sorted_range_def
proof (intro allI impI)
  fix i j
  assume t: "touches_only xs ys a b" and d: "d \<le> length xs" and dis: "d \<le> a \<or> b \<le> c"
    and s: "\<forall>i j. c \<le> i \<and> i < j \<and> j < d \<longrightarrow> key (xs ! i) \<le> key (xs ! j)"
    and ij: "c \<le> i \<and> i < j \<and> j < d"
  have "ys ! i = xs ! i" using touches_only_outside [OF t, of i] d dis ij by auto
  moreover have "ys ! j = xs ! j" using touches_only_outside [OF t, of j] d dis ij by auto
  ultimately show "key (ys ! i) \<le> key (ys ! j)" using s ij by simp
qed

subsection \<open>Insertion sort and the small ranges\<close>

lemma insert_down_touch: "touches_only xs (insert_down lt a j xs) a (Suc j)"
proof (induction j arbitrary: xs)
  case 0
  then show ?case by (simp add: touches_only_refl)
next
  case (Suc j)
  show ?case
  proof (cases "Suc j > a \<and> Less lt xs (Suc j) j")
    case True
    then have s: "touches_only xs (Swap (Suc j) j xs) a (Suc (Suc j))"
      by (intro touches_only_Swap) auto
    have "touches_only (Swap (Suc j) j xs) (insert_down lt a j (Swap (Suc j) j xs)) a (Suc (Suc j))"
      using Suc [of "Swap (Suc j) j xs"] by (rule touches_only_mono) auto
    then show ?thesis using True s by (auto intro: touches_only_trans)
  next
    case False
    then show ?thesis by (auto simp: touches_only_refl)
  qed
qed

lemma insert_down_sorted:
  assumes key: "\<And>x y. lt x y = (key x < key y)"
  shows "a \<le> j \<Longrightarrow> j \<le> i \<Longrightarrow> i < length xs \<Longrightarrow> sorted_range key xs a j \<Longrightarrow>
     sorted_range key xs j (Suc i) \<Longrightarrow>
     (\<forall>p q. a \<le> p \<and> p < j \<and> j < q \<and> q \<le> i \<longrightarrow> key (xs ! p) \<le> key (xs ! q)) \<Longrightarrow>
     sorted_range key (insert_down lt a j xs) a (Suc i)"
proof (induction j arbitrary: xs)
  case 0
  then show ?case by simp
next
  case (Suc j)
  show ?case
  proof (cases "Suc j > a \<and> Less lt xs (Suc j) j")
    case True
    define ys where "ys = Swap (Suc j) j xs"
    have lt: "key (xs ! Suc j) < key (xs ! j)" using True key by (simp add: Less_def)
    have nth: "ys ! k = (if k = Suc j then xs ! j else if k = j then xs ! Suc j else xs ! k)" for k
      unfolding ys_def using Suc.prems by (simp add: Swap_nth)
    have 1: "sorted_range key ys a j"
      using Suc.prems(4) by (auto simp: sorted_range_def nth)
    have 2: "sorted_range key ys j (Suc i)"
      unfolding sorted_range_def
    proof (intro allI impI)
      fix p q assume pq: "j \<le> p \<and> p < q \<and> q < Suc i"
      consider "p = j" "q = Suc j" | "p = j" "q > Suc j" | "p = Suc j" | "p > Suc j"
        using pq by linarith
      then show "key (ys ! p) \<le> key (ys ! q)"
      proof cases
        case 1
        then show ?thesis using lt by (simp add: nth)
      next
        case 2
        then show ?thesis using Suc.prems(5) pq by (simp add: nth sorted_range_def)
      next
        case 3
        then show ?thesis using Suc.prems(6) pq True by (simp add: nth)
      next
        case 4
        then show ?thesis using Suc.prems(5) pq by (simp add: nth sorted_range_def)
      qed
    qed
    have 3: "\<forall>p q. a \<le> p \<and> p < j \<and> j < q \<and> q \<le> i \<longrightarrow> key (ys ! p) \<le> key (ys ! q)"
    proof (intro allI impI)
      fix p q assume pq: "a \<le> p \<and> p < j \<and> j < q \<and> q \<le> i"
      show "key (ys ! p) \<le> key (ys ! q)"
      proof (cases "q = Suc j")
        case True
        then show ?thesis using Suc.prems(4) pq by (simp add: nth sorted_range_def)
      next
        case False
        then show ?thesis using Suc.prems(6) pq by (simp add: nth)
      qed
    qed
    have "sorted_range key (insert_down lt a j ys) a (Suc i)"
      using Suc.IH [of ys] True Suc.prems(2,3) 1 2 3 by (simp add: ys_def)
    then show ?thesis using True by (simp add: ys_def)
  next
    case False
    have "sorted_range key xs a (Suc i)"
      unfolding sorted_range_def
    proof (intro allI impI)
      fix p q assume pq: "a \<le> p \<and> p < q \<and> q < Suc i"
      consider "q < Suc j" | "p \<ge> Suc j" | "p < Suc j" "q > Suc j" | "p < Suc j" "q = Suc j"
        by linarith
      then show "key (xs ! p) \<le> key (xs ! q)"
      proof cases
        case 1
        then show ?thesis using Suc.prems(4) pq by (simp add: sorted_range_def)
      next
        case 2
        then show ?thesis using Suc.prems(5) pq by (simp add: sorted_range_def)
      next
        case 3
        then show ?thesis using Suc.prems(6) pq by simp
      next
        case 4
        then have "key (xs ! j) \<le> key (xs ! Suc j)"
          using False pq key by (auto simp: Less_def)
        moreover have "key (xs ! p) \<le> key (xs ! j)"
          using 4 pq Suc.prems(4) by (cases "p = j") (auto simp: sorted_range_def)
        ultimately show ?thesis using 4 by simp
      qed
    qed
    then show ?thesis using False by auto
  qed
qed

lemma insertionSort_correct:
  assumes key: "\<And>x y. lt x y = (key x < key y)"
  shows "b \<le> length xs \<Longrightarrow>
     sorted_range key (insertionSort_func lt xs a b) a b
     \<and> touches_only xs (insertionSort_func lt xs a b) a b"
proof (induction b)
  case 0
  then show ?case by (simp add: insertionSort_func_def sorted_range_def touches_only_refl)
next
  case (Suc b)
  show ?case
  proof (cases "a < b")
    case False
    then have "insertionSort_func lt xs a (Suc b) = xs" by (simp add: insertionSort_func_def)
    moreover have "sorted_range key xs a (Suc b)" using False by (auto simp: sorted_range_def)
    ultimately show ?thesis by (simp add: touches_only_refl)
  next
    case True
    define ys where "ys = insertionSort_func lt xs a b"
    have ih: "sorted_range key ys a b" "touches_only xs ys a b"
      using Suc by (simp_all add: ys_def)
    have len: "length ys = length xs" using ih(2) by (rule touches_only_length)
    have e: "insertionSort_func lt xs a (Suc b) = insert_down lt a b ys"
      using True by (simp add: insertionSort_func_def ys_def)
    have "sorted_range key (insert_down lt a b ys) a (Suc b)"
      using True Suc.prems len ih(1)
      by (intro insert_down_sorted [OF key]) (auto simp: sorted_range_def)
    moreover have "touches_only xs (insert_down lt a b ys) a (Suc b)"
      using touches_only_mono [OF ih(2), of a "Suc b"] insert_down_touch [of ys lt a b]
      by (auto intro: touches_only_trans)
    ultimately show ?thesis by (simp add: e)
  qed
qed

lemma shell_pass_touch: "touches_only xs (shell_pass lt xs a b) a b"
proof (induction b)
  case 0
  then show ?case by (simp add: shell_pass_def touches_only_refl)
next
  case (Suc b)
  show ?case
  proof (cases "a + 6 \<le> b")
    case False
    then show ?thesis by (simp add: shell_pass_def touches_only_refl)
  next
    case True
    define ys where "ys = shell_pass lt xs a b"
    have e: "shell_pass lt xs a (Suc b) = (if Less lt ys b (b - 6) then Swap b (b - 6) ys else ys)"
      using True by (simp add: shell_pass_def ys_def)
    have "touches_only xs ys a (Suc b)"
      using Suc by (auto simp: ys_def intro: touches_only_mono)
    moreover have "touches_only ys (Swap b (b - 6) ys) a (Suc b)"
      using True by (intro touches_only_Swap) auto
    ultimately show ?thesis by (auto simp: e intro: touches_only_trans)
  qed
qed

lemma small_sort_correct:
  assumes key: "\<And>x y. lt x y = (key x < key y)"
  shows "b \<le> length xs \<Longrightarrow>
     sorted_range key (small_sort lt xs a b) a b \<and> touches_only xs (small_sort lt xs a b) a b"
proof -
  assume b: "b \<le> length xs"
  show ?thesis
  proof (cases "b - a > 1")
    case False
    then show ?thesis by (auto simp: small_sort_def sorted_range_def touches_only_refl)
  next
    case True
    define ys where "ys = shell_pass lt xs a b"
    have t: "touches_only xs ys a b" unfolding ys_def by (rule shell_pass_touch)
    then have "b \<le> length ys" using b by (simp add: touches_only_length)
    then have "sorted_range key (insertionSort_func lt ys a b) a b
        \<and> touches_only ys (insertionSort_func lt ys a b) a b"
      by (rule insertionSort_correct [OF key])
    then show ?thesis using True t by (auto simp: small_sort_def ys_def intro: touches_only_trans)
  qed
qed

subsection \<open>Heap sort\<close>

lemma siftDown_touch:
  "touches_only xs (siftDown_func lt xs root hi first) first (first + hi)"
proof (induction lt xs root hi first rule: siftDown_func.induct)
  case (1 lt xs root hi first)
  show ?case
  proof (cases "2 * root + 1 \<ge> hi")
    case True
    then show ?thesis by (subst siftDown_func.simps) (simp add: touches_only_refl)
  next
    case False
    define child where "child = (if 2 * root + 2 < hi \<and> Less lt xs (first + (2 * root + 1)) (first + (2 * root + 1) + 1)
                     then 2 * root + 2 else 2 * root + 1)"
    have c: "child < hi" using False by (auto simp: child_def)
    show ?thesis
    proof (cases "Less lt xs (first + root) (first + child)")
      case nl: False
      then show ?thesis using False
        by (subst siftDown_func.simps) (simp add: touches_only_refl child_def Let_def)
    next
      case True
      have s: "touches_only xs (Swap (first + root) (first + child) xs) first (first + hi)"
        using c False by (intro touches_only_Swap) auto
      have "touches_only (Swap (first + root) (first + child) xs)
              (siftDown_func lt (Swap (first + root) (first + child) xs) child hi first) first (first + hi)"
        using "1.IH" [OF False child_def] True by simp
      then have "touches_only xs (siftDown_func lt (Swap (first + root) (first + child) xs) child hi first) first (first + hi)"
        using s by (rule touches_only_trans [rotated])
      then show ?thesis using False True
        by (subst siftDown_func.simps) (simp add: child_def Let_def)
    qed
  qed
qed

lemma siftDown_heap:
  "\<forall>x y. lt x y = (key x < key y) \<Longrightarrow> first + hi \<le> length xs \<Longrightarrow> lo \<le> root \<Longrightarrow>
     (\<forall>k. lo \<le> k \<and> k < hi \<and> k \<noteq> root \<longrightarrow> heap_fn (keys_from key xs first) hi k) \<Longrightarrow>
     (\<forall>p c. lo \<le> p \<and> (root = 2 * p + 1 \<or> root = 2 * p + 2) \<and> (c = 2 * root + 1 \<or> c = 2 * root + 2) \<and> c < hi
        \<longrightarrow> keys_from key xs first c \<le> keys_from key xs first p) \<Longrightarrow>
     is_heap key (siftDown_func lt xs root hi first) first lo hi"
proof (induction lt xs root hi first rule: siftDown_func.induct)
  case (1 lt xs root hi first)
  note key = "1.prems"(1)
  define f where "f = keys_from key xs first"
  note H1 = "1.prems"(4) [folded f_def]
  note H2 = "1.prems"(5) [folded f_def]
  show ?case
  proof (cases "2 * root + 1 \<ge> hi")
    case True
    then have "heap_fn f hi root" by (simp add: heap_fn_def)
    then have "is_heap key xs first lo hi" using H1 by (auto simp: is_heap_def f_def)
    then show ?thesis using True by (subst siftDown_func.simps) simp
  next
    case False
    define child where "child = (if 2 * root + 2 < hi \<and> Less lt xs (first + (2 * root + 1)) (first + (2 * root + 1) + 1)
                     then 2 * root + 2 else 2 * root + 1)"
    have c: "child < hi" "child = 2 * root + 1 \<or> child = 2 * root + 2" using False by (auto simp: child_def)
    have L: "Less lt xs (first + i) (first + j) = (f i < f j)" for i j
      using key by (simp add: Less_def f_def keys_from_def)
    have L': "Less lt xs (first + (2 * root + 1)) (first + (2 * root + 1) + 1) = (f (2 * root + 1) < f (2 * root + 2))"
      using L [of "2 * root + 1" "2 * root + 2"] by (simp add: add.assoc)
    have big: "\<forall>c'. (c' = 2 * root + 1 \<or> c' = 2 * root + 2) \<and> c' < hi \<longrightarrow> f c' \<le> f child"
      using False unfolding child_def L' by auto
    show ?thesis
    proof (cases "Less lt xs (first + root) (first + child)")
      case nl: False
      then have "f child \<le> f root" using L [of root child] by auto
      then have "heap_fn f hi root"
        using big by (auto simp: heap_fn_def intro: order_trans)
      then have "is_heap key xs first lo hi" using H1 by (auto simp: is_heap_def f_def)
      then show ?thesis using False nl
        by (subst siftDown_func.simps) (simp add: child_def Let_def)
    next
      case True
      define ys where "ys = Swap (first + root) (first + child) xs"
      define g where "g = keys_from key ys first"
      have lt: "f root < f child" using True L [of root child] by simp
      have g: "g k = (if k = root then f child else if k = child then f root else f k)" for k
        unfolding g_def f_def keys_from_def ys_def using "1.prems"(2) c(1) False by (simp add: Swap_nth)
      have len: "first + hi \<le> length ys" using "1.prems"(2) by (simp add: ys_def)
      have h1: "\<forall>k. lo \<le> k \<and> k < hi \<and> k \<noteq> child \<longrightarrow> heap_fn g hi k"
      proof (intro allI impI)
        fix k assume k: "lo \<le> k \<and> k < hi \<and> k \<noteq> child"
        show "heap_fn g hi k"
        proof (cases "k = root")
          case True
          then show ?thesis using big lt c by (auto simp: heap_fn_def g)
        next
          case kr: False
          then have hk: "heap_fn f hi k" using H1 k by simp
          show ?thesis
          proof (cases "root = 2 * k + 1 \<or> root = 2 * k + 2")
            case True
            then have "f child \<le> f k" using H2 k c by blast
            then show ?thesis using hk True kr k c
              by (auto simp: heap_fn_def g)
          next
            case False
            then show ?thesis using hk kr k c by (auto simp: heap_fn_def g)
          qed
        qed
      qed
      have h2: "\<forall>p c'. lo \<le> p \<and> (child = 2 * p + 1 \<or> child = 2 * p + 2)
            \<and> (c' = 2 * child + 1 \<or> c' = 2 * child + 2) \<and> c' < hi
          \<longrightarrow> g c' \<le> g p"
      proof (intro allI impI)
        fix p c' assume a: "lo \<le> p \<and> (child = 2 * p + 1 \<or> child = 2 * p + 2)
            \<and> (c' = 2 * child + 1 \<or> c' = 2 * child + 2) \<and> c' < hi"
        then have p: "p = root" using c(2) by auto
        have "heap_fn f hi child" using "1.prems"(3) H1 c by auto
        then have "f c' \<le> f child" using a by (auto simp: heap_fn_def)
        then show "g c' \<le> g p" using p a c by (auto simp: g)
      qed
      have lc: "lo \<le> child" using "1.prems"(3) c(2) by auto
      have nn: "\<not> \<not> Less lt xs (first + root) (first + child)" using True by simp
      have "is_heap key (siftDown_func lt ys child hi first) first lo hi"
        unfolding ys_def
        by (rule "1.IH" [OF False child_def nn key len [unfolded ys_def] lc
              h1 [unfolded g_def ys_def] h2 [unfolded g_def ys_def]])
      then show ?thesis using False True
        by (subst siftDown_func.simps) (simp add: child_def Let_def ys_def)
    qed
  qed
qed

lemma heap_build:
  "\<forall>x y. lt x y = (key x < key y) \<Longrightarrow> first + hi \<le> length xs \<Longrightarrow> is_heap key xs first n hi \<Longrightarrow>
   is_heap key (fold (\<lambda>i ys. siftDown_func lt ys i hi first) (rev [0..<n]) xs) first 0 hi
   \<and> touches_only xs (fold (\<lambda>i ys. siftDown_func lt ys i hi first) (rev [0..<n]) xs) first (first + hi)"
proof (induction n arbitrary: xs)
  case 0
  then show ?case by (simp add: touches_only_refl)
next
  case (Suc n)
  define ys where "ys = siftDown_func lt xs n hi first"
  have t: "touches_only xs ys first (first + hi)" unfolding ys_def by (rule siftDown_touch)
  have len: "first + hi \<le> length ys" using t Suc.prems(2) by (simp add: touches_only_length)
  have h1: "\<forall>k. n \<le> k \<and> k < hi \<and> k \<noteq> n \<longrightarrow> heap_fn (keys_from key xs first) hi k"
    using Suc.prems(3) by (auto simp: is_heap_def)
  have h2: "\<forall>p c. n \<le> p \<and> (n = 2 * p + 1 \<or> n = 2 * p + 2) \<and> (c = 2 * n + 1 \<or> c = 2 * n + 2) \<and> c < hi
        \<longrightarrow> keys_from key xs first c \<le> keys_from key xs first p"
    by auto
  have "is_heap key ys first n hi"
    unfolding ys_def using siftDown_heap [OF Suc.prems(1) Suc.prems(2) _ h1 h2] by simp
  then have "is_heap key (fold (\<lambda>i ys. siftDown_func lt ys i hi first) (rev [0..<n]) ys) first 0 hi
   \<and> touches_only ys (fold (\<lambda>i ys. siftDown_func lt ys i hi first) (rev [0..<n]) ys) first (first + hi)"
    using Suc.IH [OF Suc.prems(1) len] by simp
  then show ?case using t by (auto simp: ys_def intro: touches_only_trans)
qed

lemma heap_max:
  "is_heap key xs first 0 hi \<Longrightarrow> k < hi \<Longrightarrow> keys_from key xs first k \<le> keys_from key xs first 0"
proof (induction k rule: less_induct)
  case (less k)
  show ?case
  proof (cases "k = 0")
    case True
    then show ?thesis by simp
  next
    case False
    define p where "p = (k - 1) div 2"
    have pk: "p < k" "k = 2 * p + 1 \<or> k = 2 * p + 2" using False by (auto simp: p_def)
    have "heap_fn (keys_from key xs first) hi p" using less.prems pk by (simp add: is_heap_def)
    then have "keys_from key xs first k \<le> keys_from key xs first p"
      using pk less.prems(2) by (auto simp: heap_fn_def)
    moreover have "keys_from key xs first p \<le> keys_from key xs first 0"
      using less.IH [OF pk(1) less.prems(1)] pk less.prems(2) by simp
    ultimately show ?thesis by simp
  qed
qed

lemma sorted_range_rel:
  "sorted_range key xs (first + n) (first + hi)
     = (\<forall>p q. n \<le> p \<and> p < q \<and> q < hi \<longrightarrow> keys_from key xs first p \<le> keys_from key xs first q)"
proof
  assume s: "sorted_range key xs (first + n) (first + hi)"
  show "\<forall>p q. n \<le> p \<and> p < q \<and> q < hi \<longrightarrow> keys_from key xs first p \<le> keys_from key xs first q"
  proof (intro allI impI)
    fix p q assume "n \<le> p \<and> p < q \<and> q < hi"
    then have "first + n \<le> first + p \<and> first + p < first + q \<and> first + q < first + hi" by simp
    then show "keys_from key xs first p \<le> keys_from key xs first q"
      using s unfolding sorted_range_def keys_from_def by blast
  qed
next
  assume r: "\<forall>p q. n \<le> p \<and> p < q \<and> q < hi \<longrightarrow> keys_from key xs first p \<le> keys_from key xs first q"
  show "sorted_range key xs (first + n) (first + hi)"
    unfolding sorted_range_def
  proof (intro allI impI)
    fix i j assume ij: "first + n \<le> i \<and> i < j \<and> j < first + hi"
    then have "n \<le> i - first \<and> i - first < j - first \<and> j - first < hi" by auto
    then have "keys_from key xs first (i - first) \<le> keys_from key xs first (j - first)"
      using r by blast
    then show "key (xs ! i) \<le> key (xs ! j)" using ij by (simp add: keys_from_def)
  qed
qed

lemma heap_pop:
  "\<forall>x y. lt x y = (key x < key y) \<Longrightarrow> first + hi \<le> length xs \<Longrightarrow> n \<le> hi \<Longrightarrow>
   is_heap key xs first 0 n \<Longrightarrow>
   (\<forall>p q. n \<le> p \<and> p < q \<and> q < hi \<longrightarrow> keys_from key xs first p \<le> keys_from key xs first q) \<Longrightarrow>
   (\<forall>p q. p < n \<and> n \<le> q \<and> q < hi \<longrightarrow> keys_from key xs first p \<le> keys_from key xs first q) \<Longrightarrow>
   sorted_range key
     (fold (\<lambda>i ys. siftDown_func lt (Swap first (first + i) ys) 0 i first) (rev [0..<n]) xs)
     first (first + hi)
   \<and> touches_only xs
     (fold (\<lambda>i ys. siftDown_func lt (Swap first (first + i) ys) 0 i first) (rev [0..<n]) xs)
     first (first + hi)"
proof (induction n arbitrary: xs)
  case 0
  then show ?case using sorted_range_rel [of key xs first 0 hi] by (simp add: touches_only_refl)
next
  case (Suc n)
  note key = Suc.prems(1)
  define f where "f = keys_from key xs first"
  define zs where "zs = Swap first (first + n) xs"
  define g where "g = keys_from key zs first"
  define ws where "ws = siftDown_func lt zs 0 n first"
  define h where "h = keys_from key ws first"
  note B = Suc.prems(5) [folded f_def]
  note C = Suc.prems(6) [folded f_def]
  have g: "g k = (if k = 0 then f n else if k = n then f 0 else f k)" for k
    unfolding g_def f_def keys_from_def zs_def using Suc.prems(2,3) by (simp add: Swap_nth)
  have tz: "touches_only xs zs first (first + hi)"
    unfolding zs_def using Suc.prems(3) by (intro touches_only_Swap) auto
  have tw: "touches_only zs ws first (first + n)" unfolding ws_def by (rule siftDown_touch)
  have lenz: "length zs = length xs" by (simp add: zs_def)
  have lenw: "length ws = length xs" using tw lenz by (simp add: touches_only_length)
  have hmax: "k < Suc n \<Longrightarrow> f k \<le> f 0" for k
    unfolding f_def using heap_max [OF Suc.prems(4)] by simp
  have hout: "n \<le> k \<Longrightarrow> k < hi \<Longrightarrow> h k = g k" for k
    unfolding h_def g_def keys_from_def
    using touches_only_outside [OF tw, of "first + k"] lenz Suc.prems(2) by simp
  have hin: "\<exists>j. j < n \<and> h k = g j" if kn: "k < n" for k
  proof -
    have "first + n \<le> length zs" using lenz Suc.prems(2,3) by simp
    then obtain j where j: "first \<le> j \<and> j < first + n \<and> ws ! (first + k) = zs ! j"
      using range_elem [OF tw, of "first + k"] kn by auto
    then have "j - first < n \<and> h k = g (j - first)"
      by (auto simp: h_def g_def keys_from_def)
    then show ?thesis by blast
  qed
  have h1: "\<forall>k. 0 \<le> k \<and> k < n \<and> k \<noteq> 0 \<longrightarrow> heap_fn g n k"
  proof (intro allI impI)
    fix k assume k: "0 \<le> k \<and> k < n \<and> k \<noteq> 0"
    then have "heap_fn f (Suc n) k" using Suc.prems(4) by (simp add: is_heap_def f_def)
    then show "heap_fn g n k" using k by (auto simp: heap_fn_def g)
  qed
  have h2: "\<forall>p c. 0 \<le> p \<and> (0 = 2 * p + 1 \<or> 0 = 2 * p + 2) \<and> (c = 2 * 0 + 1 \<or> c = 2 * 0 + 2) \<and> c < n
        \<longrightarrow> g c \<le> g p" by simp
  have len: "first + n \<le> length zs" using lenz Suc.prems(2,3) by simp
  have a': "is_heap key ws first 0 n"
    unfolding ws_def
    by (rule siftDown_heap [OF key len _ h1 [unfolded g_def] h2 [unfolded g_def]]) simp
  have b': "\<forall>p q. n \<le> p \<and> p < q \<and> q < hi \<longrightarrow> h p \<le> h q"
  proof (intro allI impI)
    fix p q assume pq: "n \<le> p \<and> p < q \<and> q < hi"
    have "h p = g p" "h q = g q" using pq hout by auto
    moreover have "g p \<le> g q"
    proof (cases "p = n")
      case True
      then have "f 0 \<le> f q" using C pq by simp
      then show ?thesis using True pq by (simp add: g)
    next
      case False
      then have "f p \<le> f q" using B pq by simp
      then show ?thesis using False pq by (simp add: g)
    qed
    ultimately show "h p \<le> h q" by simp
  qed
  have c': "\<forall>p q. p < n \<and> n \<le> q \<and> q < hi \<longrightarrow> h p \<le> h q"
  proof (intro allI impI)
    fix p q assume pq: "p < n \<and> n \<le> q \<and> q < hi"
    obtain j where j: "j < n" "h p = g j" using hin pq by blast
    define j' where "j' = (if j = 0 then n else j)"
    have gj: "g j = f j'" "j' < Suc n" using j(1) by (auto simp: g j'_def)
    have hq: "h q = g q" using pq hout by simp
    show "h p \<le> h q"
    proof (cases "q = n")
      case True
      then show ?thesis using hmax [OF gj(2)] gj j hq pq by (simp add: g)
    next
      case False
      then have "f j' \<le> f q" using C gj(2) pq by simp
      then show ?thesis using False gj j hq pq by (simp add: g)
    qed
  qed
  have lenw': "first + hi \<le> length ws" using lenw Suc.prems(2) by simp
  have nhi: "n \<le> hi" using Suc.prems(3) by simp
  have "sorted_range key
     (fold (\<lambda>i ys. siftDown_func lt (Swap first (first + i) ys) 0 i first) (rev [0..<n]) ws)
     first (first + hi)
   \<and> touches_only ws
     (fold (\<lambda>i ys. siftDown_func lt (Swap first (first + i) ys) 0 i first) (rev [0..<n]) ws)
     first (first + hi)"
    by (rule Suc.IH [OF key lenw' nhi a' b' [unfolded h_def] c' [unfolded h_def]])
  moreover have "touches_only xs ws first (first + hi)"
    using tz touches_only_mono [OF tw, of first "first + hi"] Suc.prems(3)
    by (auto intro: touches_only_trans)
  ultimately show ?case by (auto simp: ws_def zs_def intro: touches_only_trans)
qed

lemma heapSort_correct:
  assumes key: "\<forall>x y. lt x y = (key x < key y)" and ab: "a \<le> b" "b \<le> length xs"
  shows "sorted_range key (heapSort_func lt xs a b) a b \<and> touches_only xs (heapSort_func lt xs a b) a b"
proof -
  define hi where "hi = b - a"
  define built where "built = fold (\<lambda>i ys. siftDown_func lt ys i hi a) (rev [0..<(hi - 1) div 2 + 1]) xs"
  have e: "a + hi = b" using ab by (simp add: hi_def)
  have len: "a + hi \<le> length xs" using ab e by simp
  have h0: "is_heap key xs a ((hi - 1) div 2 + 1) hi"
    by (auto simp: is_heap_def heap_fn_def)
  have hbtb: "is_heap key built a 0 hi \<and> touches_only xs built a (a + hi)"
    unfolding built_def by (rule heap_build [OF key len h0])
  then have hb: "is_heap key built a 0 hi" and tb: "touches_only xs built a (a + hi)"
    by simp_all
  have lenb: "a + hi \<le> length built" using tb len by (simp add: touches_only_length)
  have "sorted_range key
     (fold (\<lambda>i ys. siftDown_func lt (Swap a (a + i) ys) 0 i a) (rev [0..<hi]) built) a (a + hi)
   \<and> touches_only built
     (fold (\<lambda>i ys. siftDown_func lt (Swap a (a + i) ys) 0 i a) (rev [0..<hi]) built) a (a + hi)"
    by (rule heap_pop [OF key lenb _ hb]) auto
  moreover have "heapSort_func lt xs a b
      = fold (\<lambda>i ys. siftDown_func lt (Swap a (a + i) ys) 0 i a) (rev [0..<hi]) built"
    unfolding heapSort_func_def Let_def hi_def built_def ..
  ultimately show ?thesis using tb e by (auto intro: touches_only_trans)
qed

subsection \<open>The scans and the median of three\<close>

lemma scan_less_props:
  "\<forall>x y. lt x y = ((key :: 'a \<Rightarrow> 'k::linorder) x < key y) \<Longrightarrow> a \<le> c \<Longrightarrow>
   a \<le> scan_less lt xs p a c \<and> scan_less lt xs p a c \<le> c
   \<and> (\<forall>i. a \<le> i \<and> i < scan_less lt xs p a c \<longrightarrow> key (xs ! i) < key (xs ! p))
   \<and> (scan_less lt xs p a c < c \<longrightarrow> \<not> key (xs ! scan_less lt xs p a c) < key (xs ! p))"
proof (induction lt xs p a c rule: scan_less.induct)
  case (1 lt xs p a c)
  show ?case
  proof (cases "a < c \<and> Less lt xs a p")
    case True
    then have e: "scan_less lt xs p a c = scan_less lt xs p (a + 1) c"
      by (subst scan_less.simps) simp
    have k: "key (xs ! a) < key (xs ! p)" using True "1.prems"(1) by (simp add: Less_def)
    have ih: "a + 1 \<le> scan_less lt xs p (a + 1) c \<and> scan_less lt xs p (a + 1) c \<le> c
      \<and> (\<forall>i. a + 1 \<le> i \<and> i < scan_less lt xs p (a + 1) c \<longrightarrow> key (xs ! i) < key (xs ! p))
      \<and> (scan_less lt xs p (a + 1) c < c \<longrightarrow> \<not> key (xs ! scan_less lt xs p (a + 1) c) < key (xs ! p))"
      using "1.IH" [OF True "1.prems"(1)] True by simp
    have "\<forall>i. a \<le> i \<and> i < scan_less lt xs p (a + 1) c \<longrightarrow> key (xs ! i) < key (xs ! p)"
    proof (intro allI impI)
      fix i assume i: "a \<le> i \<and> i < scan_less lt xs p (a + 1) c"
      show "key (xs ! i) < key (xs ! p)"
      proof (cases "i = a")
        case True
        then show ?thesis using k by simp
      next
        case False
        then show ?thesis using ih i by auto
      qed
    qed
    then show ?thesis using ih unfolding e by simp
  next
    case False
    then have e: "scan_less lt xs p a c = a" by (subst scan_less.simps) auto
    have "a < c \<longrightarrow> \<not> key (xs ! a) < key (xs ! p)"
      using False "1.prems"(1) by (auto simp: Less_def)
    then show ?thesis using "1.prems"(2) unfolding e by auto
  qed
qed

lemma scan_not_greater_props:
  "\<forall>x y. lt x y = ((key :: 'a \<Rightarrow> 'k::linorder) x < key y) \<Longrightarrow> b \<le> c \<Longrightarrow>
   b \<le> scan_not_greater lt xs p b c \<and> scan_not_greater lt xs p b c \<le> c
   \<and> (\<forall>i. b \<le> i \<and> i < scan_not_greater lt xs p b c \<longrightarrow> key (xs ! i) \<le> key (xs ! p))
   \<and> (scan_not_greater lt xs p b c < c \<longrightarrow> key (xs ! p) < key (xs ! scan_not_greater lt xs p b c))"
proof (induction lt xs p b c rule: scan_not_greater.induct)
  case (1 lt xs p b c)
  show ?case
  proof (cases "b < c \<and> \<not> Less lt xs p b")
    case True
    then have e: "scan_not_greater lt xs p b c = scan_not_greater lt xs p (b + 1) c"
      by (subst scan_not_greater.simps) simp
    have k: "key (xs ! b) \<le> key (xs ! p)" using True "1.prems"(1) by (simp add: Less_def not_less)
    have ih: "b + 1 \<le> scan_not_greater lt xs p (b + 1) c \<and> scan_not_greater lt xs p (b + 1) c \<le> c
      \<and> (\<forall>i. b + 1 \<le> i \<and> i < scan_not_greater lt xs p (b + 1) c \<longrightarrow> key (xs ! i) \<le> key (xs ! p))
      \<and> (scan_not_greater lt xs p (b + 1) c < c \<longrightarrow> key (xs ! p) < key (xs ! scan_not_greater lt xs p (b + 1) c))"
      using "1.IH" [OF True "1.prems"(1)] True by simp
    have "\<forall>i. b \<le> i \<and> i < scan_not_greater lt xs p (b + 1) c \<longrightarrow> key (xs ! i) \<le> key (xs ! p)"
    proof (intro allI impI)
      fix i assume i: "b \<le> i \<and> i < scan_not_greater lt xs p (b + 1) c"
      show "key (xs ! i) \<le> key (xs ! p)"
      proof (cases "i = b")
        case True
        then show ?thesis using k by simp
      next
        case False
        then show ?thesis using ih i by auto
      qed
    qed
    then show ?thesis using ih unfolding e by simp
  next
    case False
    then have e: "scan_not_greater lt xs p b c = b" by (subst scan_not_greater.simps) auto
    have "b < c \<longrightarrow> key (xs ! p) < key (xs ! b)"
      using False "1.prems"(1) by (auto simp: Less_def)
    then show ?thesis using "1.prems"(2) unfolding e by auto
  qed
qed

lemma scan_greater_down_props:
  "\<forall>x y. lt x y = ((key :: 'a \<Rightarrow> 'k::linorder) x < key y) \<Longrightarrow> b \<le> c \<Longrightarrow>
   b \<le> scan_greater_down lt xs p b c \<and> scan_greater_down lt xs p b c \<le> c
   \<and> (\<forall>i. scan_greater_down lt xs p b c \<le> i \<and> i < c \<longrightarrow> key (xs ! p) < key (xs ! i))
   \<and> (b < scan_greater_down lt xs p b c \<longrightarrow> key (xs ! (scan_greater_down lt xs p b c - 1)) \<le> key (xs ! p))"
proof (induction lt xs p b c rule: scan_greater_down.induct)
  case (1 lt xs p b c)
  show ?case
  proof (cases "b < c \<and> Less lt xs p (c - 1)")
    case True
    then have e: "scan_greater_down lt xs p b c = scan_greater_down lt xs p b (c - 1)"
      by (subst scan_greater_down.simps) simp
    have k: "key (xs ! p) < key (xs ! (c - 1))" using True "1.prems"(1) by (simp add: Less_def)
    have ih: "b \<le> scan_greater_down lt xs p b (c - 1) \<and> scan_greater_down lt xs p b (c - 1) \<le> c - 1
      \<and> (\<forall>i. scan_greater_down lt xs p b (c - 1) \<le> i \<and> i < c - 1 \<longrightarrow> key (xs ! p) < key (xs ! i))
      \<and> (b < scan_greater_down lt xs p b (c - 1) \<longrightarrow> key (xs ! (scan_greater_down lt xs p b (c - 1) - 1)) \<le> key (xs ! p))"
      using "1.IH" [OF True "1.prems"(1)] True by auto
    have "\<forall>i. scan_greater_down lt xs p b (c - 1) \<le> i \<and> i < c \<longrightarrow> key (xs ! p) < key (xs ! i)"
    proof (intro allI impI)
      fix i assume i: "scan_greater_down lt xs p b (c - 1) \<le> i \<and> i < c"
      show "key (xs ! p) < key (xs ! i)"
      proof (cases "i = c - 1")
        case True
        then show ?thesis using k by simp
      next
        case False
        then show ?thesis using ih i by auto
      qed
    qed
    then show ?thesis using ih True unfolding e by auto
  next
    case False
    then have e: "scan_greater_down lt xs p b c = c" by (subst scan_greater_down.simps) auto
    have "b < c \<longrightarrow> key (xs ! (c - 1)) \<le> key (xs ! p)"
      using False "1.prems"(1) by (auto simp: Less_def not_less)
    then show ?thesis using "1.prems"(2) unfolding e by auto
  qed
qed

lemma scan_not_less_down_props:
  "\<forall>x y. lt x y = ((key :: 'a \<Rightarrow> 'k::linorder) x < key y) \<Longrightarrow>
   scan_not_less_down lt xs p a b \<le> b
   \<and> (a \<le> b \<longrightarrow> a \<le> scan_not_less_down lt xs p a b)
   \<and> (\<not> a < b \<longrightarrow> scan_not_less_down lt xs p a b = b)
   \<and> (\<forall>i. scan_not_less_down lt xs p a b \<le> i \<and> i < b \<longrightarrow> key (xs ! p) \<le> key (xs ! i))
   \<and> (a < scan_not_less_down lt xs p a b \<longrightarrow> key (xs ! (scan_not_less_down lt xs p a b - 1)) < key (xs ! p))"
proof (induction lt xs p a b rule: scan_not_less_down.induct)
  case (1 lt xs p a b)
  show ?case
  proof (cases "a < b \<and> \<not> Less lt xs (b - 1) p")
    case True
    then have e: "scan_not_less_down lt xs p a b = scan_not_less_down lt xs p a (b - 1)"
      by (subst scan_not_less_down.simps) simp
    have k: "key (xs ! p) \<le> key (xs ! (b - 1))" using True "1.prems"(1) by (simp add: Less_def not_less)
    have ih: "scan_not_less_down lt xs p a (b - 1) \<le> b - 1
      \<and> (a \<le> b - 1 \<longrightarrow> a \<le> scan_not_less_down lt xs p a (b - 1))
      \<and> (\<forall>i. scan_not_less_down lt xs p a (b - 1) \<le> i \<and> i < b - 1 \<longrightarrow> key (xs ! p) \<le> key (xs ! i))
      \<and> (a < scan_not_less_down lt xs p a (b - 1) \<longrightarrow> key (xs ! (scan_not_less_down lt xs p a (b - 1) - 1)) < key (xs ! p))"
      using "1.IH" [OF True "1.prems"(1)] True by simp
    have "\<forall>i. scan_not_less_down lt xs p a (b - 1) \<le> i \<and> i < b \<longrightarrow> key (xs ! p) \<le> key (xs ! i)"
    proof (intro allI impI)
      fix i assume i: "scan_not_less_down lt xs p a (b - 1) \<le> i \<and> i < b"
      show "key (xs ! p) \<le> key (xs ! i)"
      proof (cases "i = b - 1")
        case True
        then show ?thesis using k by simp
      next
        case False
        then show ?thesis using ih i by auto
      qed
    qed
    then show ?thesis using ih True unfolding e by auto
  next
    case False
    then have e: "scan_not_less_down lt xs p a b = b" by (subst scan_not_less_down.simps) auto
    have "a < b \<longrightarrow> key (xs ! (b - 1)) < key (xs ! p)"
      using False "1.prems"(1) by (auto simp: Less_def)
    then show ?thesis unfolding e by auto
  qed
qed

lemma medianOfThree_touch:
  "lo \<le> m1 \<Longrightarrow> m1 < hi \<Longrightarrow> lo \<le> m0 \<Longrightarrow> m0 < hi \<Longrightarrow> lo \<le> m2 \<Longrightarrow> m2 < hi \<Longrightarrow>
   touches_only xs (medianOfThree_func lt xs m1 m0 m2) lo hi"
proof -
  assume a: "lo \<le> m1" "m1 < hi" "lo \<le> m0" "m0 < hi" "lo \<le> m2" "m2 < hi"
  have s10: "touches_only zs (Swap m1 m0 zs) lo hi" for zs :: "'a list"
    using a by (intro touches_only_Swap)
  have s21: "touches_only zs (Swap m2 m1 zs) lo hi" for zs :: "'a list"
    using a by (intro touches_only_Swap)
  define ys where "ys = (if Less lt xs m1 m0 then Swap m1 m0 xs else xs)"
  have t1: "touches_only xs ys lo hi" using s10 [of xs] by (simp add: ys_def touches_only_refl)
  define zs where "zs = Swap m2 m1 ys"
  have t2: "touches_only xs zs lo hi" unfolding zs_def using t1 s21 [of ys] by (rule touches_only_trans)
  have t3: "touches_only xs (Swap m1 m0 zs) lo hi" using t2 s10 [of zs] by (rule touches_only_trans)
  show ?thesis
    using t1 t2 t3 by (simp add: medianOfThree_func_def Let_def ys_def [symmetric] zs_def [symmetric])
qed

lemma medianOfThree_order:
  assumes key: "\<forall>x y. lt x y = ((key :: 'a \<Rightarrow> 'k::linorder) x < key y)"
    and d: "m0 \<noteq> m1" "m1 \<noteq> m2" "m0 \<noteq> m2"
    and l: "m0 < length xs" "m1 < length xs" "m2 < length xs"
  shows "key (medianOfThree_func lt xs m1 m0 m2 ! m0) \<le> key (medianOfThree_func lt xs m1 m0 m2 ! m1)
       \<and> key (medianOfThree_func lt xs m1 m0 m2 ! m1) \<le> key (medianOfThree_func lt xs m1 m0 m2 ! m2)"
proof -
  define ys where "ys = (if Less lt xs m1 m0 then Swap m1 m0 xs else xs)"
  have ly: "length ys = length xs" by (simp add: ys_def)
  have y: "key (ys ! m0) \<le> key (ys ! m1)" "ys ! m2 = xs ! m2"
    using key d l by (auto simp: ys_def Less_def Swap_nth not_less)
  define zs where "zs = Swap m2 m1 ys"
  have z: "zs ! m0 = ys ! m0" "zs ! m1 = ys ! m2" "zs ! m2 = ys ! m1" "length zs = length xs"
    using d l ly by (auto simp: zs_def Swap_nth)
  define ws where "ws = Swap m1 m0 zs"
  have w: "ws ! m0 = zs ! m1" "ws ! m1 = zs ! m0" "ws ! m2 = zs ! m2"
    using d l z(4) by (auto simp: ws_def Swap_nth)
  have e: "medianOfThree_func lt xs m1 m0 m2
      = (if Less lt ys m2 m1 then (if Less lt zs m1 m0 then ws else zs) else ys)"
    by (simp add: medianOfThree_func_def Let_def ys_def zs_def ws_def)
  show ?thesis
  proof (cases "Less lt ys m2 m1")
    case False
    then have "key (ys ! m1) \<le> key (ys ! m2)" using key by (simp add: Less_def not_less)
    then show ?thesis using False y e by simp
  next
    case True
    then have a: "key (ys ! m2) < key (ys ! m1)" using key by (simp add: Less_def)
    show ?thesis
    proof (cases "Less lt zs m1 m0")
      case False
      then have "key (zs ! m0) \<le> key (zs ! m1)" using key by (simp add: Less_def not_less)
      then show ?thesis using True False e z a by simp
    next
      case t: True
      then have "key (zs ! m1) < key (zs ! m0)" using key by (simp add: Less_def)
      then show ?thesis using True t e z w a y by auto
    qed
  qed
qed

lemma all_range_split:
  "a \<le> b \<Longrightarrow> b \<le> c \<Longrightarrow> all_range P xs a c = (all_range P xs a b \<and> all_range P xs b c)"
  by (auto simp: all_range_def) (metis not_le)

subsection \<open>The partition\<close>

lemma pivot_loop_props:
  "\<forall>x y. lt x y = ((key :: 'a \<Rightarrow> 'k::linorder) x < key y) \<Longrightarrow> lo < b \<Longrightarrow> b \<le> c \<Longrightarrow> c < hi \<Longrightarrow>
   hi \<le> length xs \<Longrightarrow>
   all_range (\<lambda>x. key x \<le> key (xs ! lo)) xs (Suc lo) b \<Longrightarrow>
   all_range (\<lambda>x. key (xs ! lo) \<le> key x) xs c hi \<Longrightarrow>
   pivot_loop lt xs lo b c = (ys, b', c') \<Longrightarrow>
   b' = c' \<and> b \<le> b' \<and> b' \<le> c \<and> touches_only xs ys b c
   \<and> all_range (\<lambda>x. key x \<le> key (xs ! lo)) ys (Suc lo) b'
   \<and> all_range (\<lambda>x. key (xs ! lo) \<le> key x) ys c' hi"
proof (induction lt xs lo b c arbitrary: ys b' c' rule: pivot_loop.induct)
  case (1 lt xs lo b c)
  note key = "1.prems"(1)
  define pk where "pk = key (xs ! lo)"
  define b1 where "b1 = scan_not_greater lt xs lo b c"
  define c1 where "c1 = scan_greater_down lt xs lo b1 c"
  have sb: "b \<le> b1" "b1 \<le> c" "\<forall>i. b \<le> i \<and> i < b1 \<longrightarrow> key (xs ! i) \<le> pk"
      "b1 < c \<longrightarrow> pk < key (xs ! b1)"
    using scan_not_greater_props [OF key "1.prems"(3), of xs lo] by (simp_all add: b1_def pk_def)
  have sc: "b1 \<le> c1" "c1 \<le> c" "\<forall>i. c1 \<le> i \<and> i < c \<longrightarrow> pk < key (xs ! i)"
      "b1 < c1 \<longrightarrow> key (xs ! (c1 - 1)) \<le> pk"
    using scan_greater_down_props [OF key sb(2), of xs lo] by (simp_all add: c1_def pk_def)
  note L = "1.prems"(6) [folded pk_def]
  note R = "1.prems"(7) [folded pk_def]
  have L1: "all_range (\<lambda>x. key x \<le> pk) xs (Suc lo) b1"
    using L sb(3) by (auto simp: all_range_def) (metis not_le)
  have R1: "all_range (\<lambda>x. pk \<le> key x) xs c1 hi"
    using R sc(3) by (auto simp: all_range_def) (metis not_le less_imp_le)
  show ?case
  proof (cases "b1 \<ge> c1")
    case True
    then have "pivot_loop lt xs lo b c = (xs, b1, c1)"
      by (subst pivot_loop.simps) (simp add: b1_def c1_def)
    then have r: "ys = xs" "b' = b1" "c' = c1" using "1.prems"(8) by simp_all
    show ?thesis
      using True sb sc L1 R1 unfolding r pk_def [symmetric] by (simp add: touches_only_refl)
  next
    case False
    then have lt: "b1 < c1" by simp
    define zs where "zs = Swap b1 (c1 - 1) xs"
    have e: "pivot_loop lt xs lo b c = pivot_loop lt zs lo (b1 + 1) (c1 - 1)"
      using False by (subst pivot_loop.simps) (simp add: b1_def c1_def zs_def)
    have kb: "pk < key (xs ! b1)" using sb(4) lt sc(2) by simp
    have kc: "key (xs ! (c1 - 1)) \<le> pk" using sc(4) lt by simp
    have ne: "b1 \<noteq> c1 - 1" using kb kc by auto
    then have bc: "b1 + 1 \<le> c1 - 1" using lt by simp
    have inr: "b1 < length xs" "c1 - 1 < length xs" using lt sc(2) "1.prems"(4,5) by simp_all
    have nth: "zs ! k = (if k = b1 then xs ! (c1 - 1) else if k = c1 - 1 then xs ! b1 else xs ! k)" for k
      unfolding zs_def using inr by (simp add: Swap_nth)
    have "lo \<noteq> b1" "lo \<noteq> c1 - 1" using "1.prems"(2) sb(1) lt by auto
    then have zlo: "zs ! lo = xs ! lo" by (simp add: nth)
    have tz: "touches_only xs zs b c"
      unfolding zs_def using sb(1) lt sc(2) by (intro touches_only_Swap) auto
    have Lz: "all_range (\<lambda>x. key x \<le> key (zs ! lo)) zs (Suc lo) (b1 + 1)"
      unfolding zlo pk_def [symmetric] all_range_def
    proof (intro allI impI)
      fix i assume i: "Suc lo \<le> i \<and> i < b1 + 1"
      show "key (zs ! i) \<le> pk"
      proof (cases "i = b1")
        case True
        then show ?thesis using kc by (simp add: nth)
      next
        case False
        then show ?thesis using L1 i lt by (auto simp: nth all_range_def)
      qed
    qed
    have Rz: "all_range (\<lambda>x. key (zs ! lo) \<le> key x) zs (c1 - 1) hi"
      unfolding zlo pk_def [symmetric] all_range_def
    proof (intro allI impI)
      fix i assume i: "c1 - 1 \<le> i \<and> i < hi"
      show "pk \<le> key (zs ! i)"
      proof (cases "i = c1 - 1")
        case True
        then show ?thesis using kb ne by (simp add: nth)
      next
        case False
        then show ?thesis using R1 i lt by (auto simp: nth all_range_def)
      qed
    qed
    have len: "hi \<le> length zs" using "1.prems"(5) by (simp add: zs_def)
    have p: "pivot_loop lt zs lo (b1 + 1) (c1 - 1) = (ys, b', c')" using "1.prems"(8) e by simp
    have lo1: "lo < b1 + 1" using "1.prems"(2) sb(1) by simp
    have chi: "c1 - 1 < hi" using sc(2) "1.prems"(4) by simp
    note i1 = "1.IH" [OF False [unfolded b1_def c1_def] key]
    note i2 = i1 [OF lo1 [unfolded b1_def]]
    note i3 = i2 [OF bc [unfolded b1_def c1_def]]
    note i4 = i3 [OF chi [unfolded b1_def c1_def]]
    note i5 = i4 [OF len [unfolded zs_def b1_def c1_def]]
    note i6 = i5 [OF Lz [unfolded zs_def b1_def c1_def]]
    note i7 = i6 [OF Rz [unfolded zs_def b1_def c1_def]]
    note i8 = i7 [OF p [unfolded zs_def b1_def c1_def]]
    have ih: "b' = c' \<and> b1 + 1 \<le> b' \<and> b' \<le> c1 - 1 \<and> touches_only zs ys (b1 + 1) (c1 - 1)
       \<and> all_range (\<lambda>x. key x \<le> key (zs ! lo)) ys (Suc lo) b'
       \<and> all_range (\<lambda>x. key (zs ! lo) \<le> key x) ys c' hi"
      unfolding zs_def b1_def c1_def by (rule i8)
    have "touches_only zs ys b c"
      using ih sb(1) sc(2) by (auto intro: touches_only_mono)
    then have "touches_only xs ys b c" using tz by (auto intro: touches_only_trans)
    then show ?thesis using ih sb(1) sc(2) lt unfolding zlo by auto
  qed
qed

lemma part3_bounds:
  "part3 key xs lo b c hi pk \<Longrightarrow> lo < b \<and> b \<le> c \<and> c \<le> hi \<and> hi \<le> length xs \<and> key (xs ! lo) = pk"
  by (simp add: part3_def)

lemma part3_left: "part3 key xs lo b c hi pk \<Longrightarrow> Suc lo \<le> i \<Longrightarrow> i < b \<Longrightarrow> key (xs ! i) \<le> pk"
  by (simp add: part3_def all_range_def)

lemma part3_mid: "part3 key xs lo b c hi pk \<Longrightarrow> b \<le> i \<Longrightarrow> i < c \<Longrightarrow> key (xs ! i) = pk"
  by (simp add: part3_def all_range_def)

lemma part3_right: "part3 key xs lo b c hi pk \<Longrightarrow> c \<le> i \<Longrightarrow> i < hi \<Longrightarrow> pk \<le> key (xs ! i)"
  by (simp add: part3_def all_range_def)

lemma part3_grow_right:
  assumes P: "part3 key xs lo b c hi pk" and c: "c < hi" and k: "key (xs ! (hi - 1)) \<le> pk"
  shows "part3 key (Swap c (hi - 1) xs) lo b (c + 1) hi pk
       \<and> touches_only xs (Swap c (hi - 1) xs) (Suc lo) hi"
proof -
  define zs where "zs = Swap c (hi - 1) xs"
  have B: "lo < b" "b \<le> c" "c \<le> hi" "hi \<le> length xs" "key (xs ! lo) = pk"
    using part3_bounds [OF P] by simp_all
  have inr: "c < length xs" "hi - 1 < length xs" using B c by auto
  have nth: "zs ! i = (if i = c then xs ! (hi - 1) else if i = hi - 1 then xs ! c else xs ! i)" for i
    unfolding zs_def using inr by (simp add: Swap_nth)
  have "pk \<le> key (xs ! (hi - 1))" using c by (intro part3_right [OF P]) auto
  then have e: "key (xs ! (hi - 1)) = pk" using k by simp
  have kc: "pk \<le> key (xs ! c)" using c by (intro part3_right [OF P]) auto
  have t: "touches_only xs zs (Suc lo) hi"
    unfolding zs_def using B c by (intro touches_only_Swap) auto
  have z0: "key (zs ! lo) = pk" using B c by (auto simp: nth)
  have L: "all_range (\<lambda>x. key x \<le> pk) zs (Suc lo) b"
    unfolding all_range_def
  proof (intro allI impI)
    fix i assume i: "Suc lo \<le> i \<and> i < b"
    then have "zs ! i = xs ! i" using B c by (auto simp: nth)
    then show "key (zs ! i) \<le> pk" using part3_left [OF P, of i] i by simp
  qed
  have E: "all_range (\<lambda>x. key x = pk) zs b (c + 1)"
    unfolding all_range_def
  proof (intro allI impI)
    fix i assume i: "b \<le> i \<and> i < c + 1"
    show "key (zs ! i) = pk"
    proof (cases "i = c")
      case True
      then show ?thesis using e by (simp add: nth)
    next
      case False
      then have "zs ! i = xs ! i" using i c by (auto simp: nth)
      moreover have "b \<le> i \<and> i < c" using i False by auto
      ultimately show ?thesis using part3_mid [OF P, of i] by simp
    qed
  qed
  have R: "all_range (\<lambda>x. pk \<le> key x) zs (c + 1) hi"
    unfolding all_range_def
  proof (intro allI impI)
    fix i assume i: "c + 1 \<le> i \<and> i < hi"
    show "pk \<le> key (zs ! i)"
    proof (cases "i = hi - 1")
      case True
      then show ?thesis using kc i by (simp add: nth)
    next
      case False
      then have "zs ! i = xs ! i" using i by (auto simp: nth)
      then show ?thesis using part3_right [OF P, of i] i by simp
    qed
  qed
  have "lo < b \<and> b \<le> c + 1 \<and> c + 1 \<le> hi \<and> hi \<le> length zs"
    using B c by (simp add: zs_def)
  then have "part3 key zs lo b (c + 1) hi pk"
    unfolding part3_def using z0 L E R by blast
  then show ?thesis using t unfolding zs_def by blast
qed

lemma part3_grow_left:
  assumes P: "part3 key xs lo b c hi pk" and m: "lo < m" "m < b" and k: "pk \<le> key (xs ! m)"
  shows "part3 key (Swap m (b - 1) xs) lo (b - 1) c hi pk
       \<and> touches_only xs (Swap m (b - 1) xs) (Suc lo) hi"
proof -
  define zs where "zs = Swap m (b - 1) xs"
  have B: "lo < b" "b \<le> c" "c \<le> hi" "hi \<le> length xs" "key (xs ! lo) = pk"
    using part3_bounds [OF P] by simp_all
  have inr: "m < length xs" "b - 1 < length xs" using B m by auto
  have nth: "zs ! i = (if i = m then xs ! (b - 1) else if i = b - 1 then xs ! m else xs ! i)" for i
    unfolding zs_def using inr by (simp add: Swap_nth)
  have "key (xs ! m) \<le> pk" using m by (intro part3_left [OF P]) auto
  then have e: "key (xs ! m) = pk" using k by simp
  have kb: "key (xs ! (b - 1)) \<le> pk" using m by (intro part3_left [OF P]) auto
  have t: "touches_only xs zs (Suc lo) hi"
    unfolding zs_def using B m by (intro touches_only_Swap) auto
  have z0: "key (zs ! lo) = pk" using B m by (auto simp: nth)
  have L: "all_range (\<lambda>x. key x \<le> pk) zs (Suc lo) (b - 1)"
    unfolding all_range_def
  proof (intro allI impI)
    fix i assume i: "Suc lo \<le> i \<and> i < b - 1"
    show "key (zs ! i) \<le> pk"
    proof (cases "i = m")
      case True
      then show ?thesis using kb by (simp add: nth)
    next
      case False
      then have "zs ! i = xs ! i" using i by (auto simp: nth)
      then show ?thesis using part3_left [OF P, of i] i by auto
    qed
  qed
  have E: "all_range (\<lambda>x. key x = pk) zs (b - 1) c"
    unfolding all_range_def
  proof (intro allI impI)
    fix i assume i: "b - 1 \<le> i \<and> i < c"
    show "key (zs ! i) = pk"
    proof (cases "i = b - 1")
      case True
      then show ?thesis using e by (simp add: nth)
    next
      case False
      then have "zs ! i = xs ! i" using i m by (auto simp: nth)
      moreover have "b \<le> i \<and> i < c" using i False by auto
      ultimately show ?thesis using part3_mid [OF P, of i] by simp
    qed
  qed
  have R: "all_range (\<lambda>x. pk \<le> key x) zs c hi"
    unfolding all_range_def
  proof (intro allI impI)
    fix i assume i: "c \<le> i \<and> i < hi"
    then have "zs ! i = xs ! i" using B m by (auto simp: nth)
    then show "pk \<le> key (zs ! i)" using part3_right [OF P, of i] i by simp
  qed
  have "lo < b - 1 \<and> b - 1 \<le> c \<and> c \<le> hi \<and> hi \<le> length zs"
    using B m by (auto simp: zs_def)
  then have "part3 key zs lo (b - 1) c hi pk"
    unfolding part3_def using z0 L E R by blast
  then show ?thesis using t unfolding zs_def by blast
qed

lemma part3_finish:
  assumes P: "part3 key xs lo b c hi pk"
  shows "touches_only xs (Swap lo (b - 1) xs) lo hi
       \<and> all_range (\<lambda>x. key x \<le> pk) (Swap lo (b - 1) xs) lo (b - 1)
       \<and> all_range (\<lambda>x. key x = pk) (Swap lo (b - 1) xs) (b - 1) c
       \<and> all_range (\<lambda>x. pk \<le> key x) (Swap lo (b - 1) xs) c hi"
proof -
  define zs where "zs = Swap lo (b - 1) xs"
  have B: "lo < b" "b \<le> c" "c \<le> hi" "hi \<le> length xs" "key (xs ! lo) = pk"
    using part3_bounds [OF P] by simp_all
  have inr: "lo < length xs" "b - 1 < length xs" using B by auto
  have nth: "zs ! i = (if i = lo then xs ! (b - 1) else if i = b - 1 then xs ! lo else xs ! i)" for i
    unfolding zs_def using inr by (simp add: Swap_nth)
  have t: "touches_only xs zs lo hi"
    unfolding zs_def using B by (intro touches_only_Swap) auto
  have L: "all_range (\<lambda>x. key x \<le> pk) zs lo (b - 1)"
    unfolding all_range_def
  proof (intro allI impI)
    fix i assume i: "lo \<le> i \<and> i < b - 1"
    show "key (zs ! i) \<le> pk"
    proof (cases "i = lo")
      case True
      then have "zs ! i = xs ! (b - 1)" by (simp add: nth)
      then show ?thesis using part3_left [OF P, of "b - 1"] i True by auto
    next
      case False
      then have "zs ! i = xs ! i" using i by (auto simp: nth)
      then show ?thesis using part3_left [OF P, of i] i False by auto
    qed
  qed
  have E: "all_range (\<lambda>x. key x = pk) zs (b - 1) c"
    unfolding all_range_def
  proof (intro allI impI)
    fix i assume i: "b - 1 \<le> i \<and> i < c"
    show "key (zs ! i) = pk"
    proof (cases "i = b - 1")
      case True
      then show ?thesis using B by (simp add: nth)
    next
      case False
      then have "zs ! i = xs ! i" using i B by (auto simp: nth)
      moreover have "b \<le> i \<and> i < c" using i False by auto
      ultimately show ?thesis using part3_mid [OF P, of i] by simp
    qed
  qed
  have R: "all_range (\<lambda>x. pk \<le> key x) zs c hi"
    unfolding all_range_def
  proof (intro allI impI)
    fix i assume i: "c \<le> i \<and> i < hi"
    then have "zs ! i = xs ! i" using B by (auto simp: nth)
    then show "pk \<le> key (zs ! i)" using part3_right [OF P, of i] i by simp
  qed
  show ?thesis using t L E R unfolding zs_def by blast
qed

lemma part3_shrink:
  assumes P: "part3 key xs lo b c hi pk" and b1: "lo < b1" "b1 \<le> b"
    and k: "\<forall>i. b1 \<le> i \<and> i < b \<longrightarrow> pk \<le> key (xs ! i)"
  shows "part3 key xs lo b1 c hi pk"
proof -
  have B: "lo < b" "b \<le> c" "c \<le> hi" "hi \<le> length xs" "key (xs ! lo) = pk"
    using part3_bounds [OF P] by simp_all
  have L: "all_range (\<lambda>x. key x \<le> pk) xs (Suc lo) b1"
    unfolding all_range_def
  proof (intro allI impI)
    fix i assume i: "Suc lo \<le> i \<and> i < b1"
    then have "Suc lo \<le> i \<and> i < b" using b1 by auto
    then show "key (xs ! i) \<le> pk" using part3_left [OF P, of i] by simp
  qed
  have E: "all_range (\<lambda>x. key x = pk) xs b1 c"
    unfolding all_range_def
  proof (intro allI impI)
    fix i assume i: "b1 \<le> i \<and> i < c"
    show "key (xs ! i) = pk"
    proof (cases "i < b")
      case True
      then have "Suc lo \<le> i \<and> i < b" using i b1 by auto
      then have "key (xs ! i) \<le> pk" using part3_left [OF P, of i] by simp
      moreover have "pk \<le> key (xs ! i)" using k i True by simp
      ultimately show ?thesis by simp
    next
      case False
      then have "b \<le> i \<and> i < c" using i by auto
      then show ?thesis using part3_mid [OF P, of i] by simp
    qed
  qed
  have R: "all_range (\<lambda>x. pk \<le> key x) xs c hi" using P by (simp add: part3_def)
  have "lo < b1 \<and> b1 \<le> c \<and> c \<le> hi \<and> hi \<le> length xs \<and> key (xs ! lo) = pk"
    using B b1 by simp
  then show ?thesis unfolding part3_def using L E R by blast
qed

lemma protect_loop_props:
  "\<forall>x y. lt x y = ((key :: 'a \<Rightarrow> 'k::linorder) x < key y) \<Longrightarrow> lo < a \<Longrightarrow>
   part3 key xs lo b c hi pk \<Longrightarrow>
   protect_loop lt xs lo a b = (ys, a', b') \<Longrightarrow>
   touches_only xs ys (Suc lo) hi \<and> part3 key ys lo b' c hi pk"
proof (induction lt xs lo a b arbitrary: ys a' b' rule: protect_loop.induct)
  case (1 lt xs lo a b)
  note key = "1.prems"(1)
  note P = "1.prems"(3)
  have B: "lo < b" "b \<le> c" "c \<le> hi" "hi \<le> length xs" "key (xs ! lo) = pk"
    using part3_bounds [OF P] by simp_all
  define b1 where "b1 = scan_not_less_down lt xs lo a b"
  define a1 where "a1 = scan_less lt xs lo a b1"
  have sb: "b1 \<le> b" "a \<le> b \<longrightarrow> a \<le> b1" "\<not> a < b \<longrightarrow> b1 = b"
      "\<forall>i. b1 \<le> i \<and> i < b \<longrightarrow> pk \<le> key (xs ! i)"
      "a < b1 \<longrightarrow> key (xs ! (b1 - 1)) < pk"
    using scan_not_less_down_props [OF key, of xs lo a b] B(5) by (simp_all add: b1_def)
  have lob1: "lo < b1"
  proof (cases "a \<le> b")
    case True
    then show ?thesis using sb(2) "1.prems"(2) by simp
  next
    case False
    then show ?thesis using sb(3) B(1) by simp
  qed
  have aa1: "a \<le> a1" unfolding a1_def by (rule scan_less_ge)
  have P1: "part3 key xs lo b1 c hi pk" using P lob1 sb(1) sb(4) by (rule part3_shrink)
  show ?case
  proof (cases "a1 \<ge> b1")
    case True
    then have "protect_loop lt xs lo a b = (xs, a1, b1)"
      by (subst protect_loop.simps) (simp add: b1_def a1_def)
    then have r: "ys = xs" "a' = a1" "b' = b1" using "1.prems"(4) by simp_all
    show ?thesis unfolding r using P1 by (simp add: touches_only_refl)
  next
    case False
    then have lt: "a1 < b1" by simp
    then have ab1: "a \<le> b1" "a < b1" using aa1 by simp_all
    have sa: "\<not> key (xs ! a1) < pk"
      using scan_less_props [OF key ab1(1), of xs lo] lt B(5) by (simp add: a1_def)
    have kb: "key (xs ! (b1 - 1)) < pk" using sb(5) ab1(2) by simp
    have ne: "a1 \<noteq> b1 - 1" using sa kb by auto
    then have lt2: "a1 < b1 - 1" using lt by simp
    define zs where "zs = Swap a1 (b1 - 1) xs"
    have e: "protect_loop lt xs lo a b = protect_loop lt zs lo (a1 + 1) (b1 - 1)"
      using False by (subst protect_loop.simps) (simp add: b1_def a1_def zs_def)
    have loa1: "lo < a1" using "1.prems"(2) aa1 by simp
    have pz: "part3 key zs lo (b1 - 1) c hi pk \<and> touches_only xs zs (Suc lo) hi"
      unfolding zs_def using P1 loa1 lt
    proof (rule part3_grow_left)
      show "pk \<le> key (xs ! a1)" using sa by simp
    qed
    have p: "protect_loop lt zs lo (a1 + 1) (b1 - 1) = (ys, a', b')" using "1.prems"(4) e by simp
    have lo1: "lo < a1 + 1" using loa1 by simp
    note i1 = "1.IH" [OF False [unfolded a1_def b1_def] key lo1 [unfolded a1_def b1_def]]
    note i2 = i1 [OF pz [THEN conjunct1, unfolded zs_def a1_def b1_def]]
    note i3 = i2 [OF p [unfolded zs_def a1_def b1_def]]
    have ih: "touches_only zs ys (Suc lo) hi \<and> part3 key ys lo b' c hi pk"
      unfolding zs_def a1_def b1_def by (rule i3)
    have "touches_only xs ys (Suc lo) hi"
      using pz [THEN conjunct2] ih [THEN conjunct1] by (rule touches_only_trans)
    then show ?thesis using ih by simp
  qed
qed

lemma dups_probe_props:
  assumes key: "\<forall>x y. lt x y = ((key :: 'a \<Rightarrow> 'k::linorder) x < key y)"
    and P: "part3 key xs lo b c hi pk" and c: "c < hi" and m: "lo < m" "m + 1 < b"
    and d: "dups_probe lt xs lo m hi b c = (ys, b', c', pr)"
  shows "touches_only xs ys (Suc lo) hi \<and> part3 key ys lo b' c' hi pk"
proof -
  have B: "lo < b" "b \<le> c" "c \<le> hi" "hi \<le> length xs" "key (xs ! lo) = pk"
    using part3_bounds [OF P] by simp_all
  define xs1 where "xs1 = (if \<not> Less lt xs lo (hi - 1) then Swap c (hi - 1) xs else xs)"
  define c1 where "c1 = (if \<not> Less lt xs lo (hi - 1) then c + 1 else c)"
  define b2 where "b2 = (if \<not> Less lt xs1 (b - 1) lo then b - 1 else b)"
  define xs3 where "xs3 = (if \<not> Less lt xs1 m lo then Swap m (b2 - 1) xs1 else xs1)"
  define b3 where "b3 = (if \<not> Less lt xs1 m lo then b2 - 1 else b2)"
  have e: "dups_probe lt xs lo m hi b c = (xs3, b3, c1, pr)"
    using d by (auto simp: dups_probe_def Let_def xs1_def c1_def b2_def xs3_def b3_def
        split: if_splits)
  then have r: "ys = xs3" "b' = b3" "c' = c1" using d by simp_all
  have s1: "part3 key xs1 lo b c1 hi pk \<and> touches_only xs xs1 (Suc lo) hi"
  proof (cases "Less lt xs lo (hi - 1)")
    case True
    then show ?thesis using P by (simp add: xs1_def c1_def touches_only_refl)
  next
    case False
    then have "key (xs ! (hi - 1)) \<le> pk" using key B(5) by (simp add: Less_def not_less)
    then show ?thesis using part3_grow_right [OF P c] False by (simp add: xs1_def c1_def)
  qed
  note P1 = s1 [THEN conjunct1]
  have k1: "key (xs1 ! lo) = pk" using part3_bounds [OF P1] by simp
  have s2: "part3 key xs1 lo b2 c1 hi pk" "m < b2" "b2 \<le> b"
  proof -
    show "m < b2" "b2 \<le> b" using m by (auto simp: b2_def)
    show "part3 key xs1 lo b2 c1 hi pk"
    proof (cases "Less lt xs1 (b - 1) lo")
      case True
      then show ?thesis using P1 by (simp add: b2_def)
    next
      case False
      then have k: "pk \<le> key (xs1 ! (b - 1))" using key k1 by (simp add: Less_def not_less)
      have "part3 key xs1 lo (b - 1) c1 hi pk"
      proof (rule part3_shrink [OF P1])
        show "lo < b - 1" "b - 1 \<le> b" using m by simp_all
        show "\<forall>i. b - 1 \<le> i \<and> i < b \<longrightarrow> pk \<le> key (xs1 ! i)"
        proof (intro allI impI)
          fix i assume "b - 1 \<le> i \<and> i < b"
          then have "i = b - 1" by auto
          then show "pk \<le> key (xs1 ! i)" using k by simp
        qed
      qed
      then show ?thesis using False by (simp add: b2_def)
    qed
  qed
  have s3: "part3 key xs3 lo b3 c1 hi pk \<and> touches_only xs1 xs3 (Suc lo) hi"
  proof (cases "Less lt xs1 m lo")
    case True
    then show ?thesis using s2(1) by (simp add: xs3_def b3_def touches_only_refl)
  next
    case False
    then have "pk \<le> key (xs1 ! m)" using key k1 by (simp add: Less_def not_less)
    then show ?thesis
      using part3_grow_left [OF s2(1) m(1) s2(2)] False by (simp add: xs3_def b3_def)
  qed
  have "touches_only xs xs3 (Suc lo) hi"
    using s1 [THEN conjunct2] s3 [THEN conjunct2] by (rule touches_only_trans)
  then show ?thesis unfolding r using s3 by simp
qed

lemma doPivot_props:
  assumes key: "\<forall>x y. lt x y = ((key :: 'a \<Rightarrow> 'k::linorder) x < key y)"
    and n: "lo + 12 < hi" and len: "hi \<le> length xs"
    and d: "doPivot_func lt xs lo hi = (ys, mlo, mhi)"
  shows "lo \<le> mlo \<and> mlo < mhi \<and> mhi \<le> hi \<and> touches_only xs ys lo hi
       \<and> (\<exists>pk. all_range (\<lambda>x. key x \<le> pk) ys lo mlo
              \<and> all_range (\<lambda>x. key x = pk) ys mlo mhi
              \<and> all_range (\<lambda>x. pk \<le> key x) ys mhi hi)"
proof -
  define m where "m = (lo + hi) div 2"
  define s where "s = (hi - lo) div 8"
  define y1 where "y1 = medianOfThree_func lt xs lo (lo + s) (lo + 2 * s)"
  define y2 where "y2 = medianOfThree_func lt y1 m (m - s) (m + s)"
  define y3 where "y3 = medianOfThree_func lt y2 (hi - 1) (hi - 1 - s) (hi - 1 - 2 * s)"
  define xs0 where "xs0 = (if hi - lo > 40 then y3 else xs)"
  define xs1 where "xs1 = medianOfThree_func lt xs0 lo m (hi - 1)"
  define a where "a = scan_less lt xs1 lo (lo + 1) (hi - 1)"
  obtain xs2 b c where pl: "pivot_loop lt xs1 lo a (hi - 1) = (xs2, b, c)"
    by (cases "pivot_loop lt xs1 lo a (hi - 1)") auto
  obtain xs3 b3 c3 protect where dp:
    "(if \<not> hi - c < 5 \<and> hi - c < (hi - lo) div 4
      then dups_probe lt xs2 lo m hi b c else (xs2, b, c, hi - c < 5)) = (xs3, b3, c3, protect)"
    by (cases "(if \<not> hi - c < 5 \<and> hi - c < (hi - lo) div 4
      then dups_probe lt xs2 lo m hi b c else (xs2, b, c, hi - c < 5))") auto
  obtain xs4 a4 b4 where pr:
    "(if protect then protect_loop lt xs3 lo a b3 else (xs3, a, b3)) = (xs4, a4, b4)"
    by (cases "(if protect then protect_loop lt xs3 lo a b3 else (xs3, a, b3))") auto
  have e0: "doPivot_func lt xs lo hi =
      (case pivot_loop lt xs1 lo a (hi - 1) of (xs2, b, c) \<Rightarrow>
         case (if \<not> hi - c < 5 \<and> hi - c < (hi - lo) div 4
               then dups_probe lt xs2 lo m hi b c else (xs2, b, c, hi - c < 5)) of
           (xs3, b3, c3, protect) \<Rightarrow>
             case (if protect then protect_loop lt xs3 lo a b3 else (xs3, a, b3)) of
               (xs4, a4, b4) \<Rightarrow> (Swap lo (b4 - 1) xs4, b4 - 1, c3))"
    unfolding doPivot_func_def Let_def a_def xs1_def xs0_def y3_def y2_def y1_def s_def m_def ..
  have e: "doPivot_func lt xs lo hi = (Swap lo (b4 - 1) xs4, b4 - 1, c3)"
    unfolding e0 pl prod.case dp pr ..
  then have r: "ys = Swap lo (b4 - 1) xs4" "mlo = b4 - 1" "mhi = c3" using d by simp_all
  have mb: "lo < m" "m < hi - 1" using n by (simp_all add: m_def)
  have t0: "touches_only xs xs0 lo hi \<and> length xs0 = length xs"
  proof (cases "hi - lo > 40")
    case False
    then show ?thesis by (simp add: xs0_def touches_only_refl)
  next
    case True
    then have s5: "5 \<le> s" "8 * s \<le> hi - lo" by (simp_all add: s_def)
    have m2: "2 * m \<le> lo + hi" "lo + hi < 2 * m + 2" by (simp_all add: m_def)
    have "touches_only xs y1 lo hi"
      unfolding y1_def using s5 True by (intro medianOfThree_touch) auto
    moreover have "touches_only y1 y2 lo hi"
      unfolding y2_def using s5 True m2 by (intro medianOfThree_touch) auto
    moreover have "touches_only y2 y3 lo hi"
      unfolding y3_def using s5 True by (intro medianOfThree_touch) auto
    ultimately have "touches_only xs y3 lo hi" by (blast intro: touches_only_trans)
    then show ?thesis using True by (simp add: xs0_def touches_only_length)
  qed
  have l0: "length xs0 = length xs" using t0 by simp
  have t1: "touches_only xs0 xs1 lo hi"
    unfolding xs1_def using mb n by (intro medianOfThree_touch) auto
  have l1: "length xs1 = length xs" using t1 l0 by (simp add: touches_only_length)
  define pk where "pk = key (xs1 ! lo)"
  have ord: "pk \<le> key (xs1 ! (hi - 1))"
    using medianOfThree_order [OF key, of m lo "hi - 1" xs0] mb n len l0
    by (simp add: xs1_def pk_def)
  have alo: "lo + 1 \<le> hi - 1" using n by simp
  have sa: "lo + 1 \<le> a" "a \<le> hi - 1" "\<forall>i. lo + 1 \<le> i \<and> i < a \<longrightarrow> key (xs1 ! i) < pk"
    using scan_less_props [OF key alo, of xs1 lo] by (simp_all add: a_def pk_def)
  have L1: "all_range (\<lambda>x. key x \<le> key (xs1 ! lo)) xs1 (Suc lo) a"
    unfolding all_range_def pk_def [symmetric] using sa(3) by (auto intro: less_imp_le)
  have R1: "all_range (\<lambda>x. key (xs1 ! lo) \<le> key x) xs1 (hi - 1) hi"
    unfolding all_range_def pk_def [symmetric]
  proof (intro allI impI)
    fix i assume "hi - 1 \<le> i \<and> i < hi"
    then have "i = hi - 1" by auto
    then show "pk \<le> key (xs1 ! i)" using ord by simp
  qed
  have loa: "lo < a" using sa(1) by simp
  have h1: "hi - 1 < hi" using n by simp
  have len1: "hi \<le> length xs1" using len l1 by simp
  note pp = pivot_loop_props [OF key loa sa(2) h1 len1 L1 R1 pl]
  have bc: "b = c" "a \<le> b" "b \<le> hi - 1" using pp by blast+
  have t2: "touches_only xs1 xs2 a (hi - 1)" using pp by blast
  have l2: "length xs2 = length xs" using t2 l1 by (simp add: touches_only_length)
  have "xs2 ! lo = xs1 ! lo"
    using t2 loa len1 n by (intro touches_only_outside [OF t2]) auto
  then have k2: "key (xs2 ! lo) = pk" by (simp add: pk_def)
  have P2: "part3 key xs2 lo b c hi pk"
    unfolding part3_def
  proof (intro conjI)
    show "lo < b" using loa bc by simp
    show "b \<le> c" using bc by simp
    show "c \<le> hi" using bc by simp
    show "hi \<le> length xs2" using len l2 by simp
    show "key (xs2 ! lo) = pk" by (rule k2)
    show "all_range (\<lambda>x. key x \<le> pk) xs2 (Suc lo) b" unfolding pk_def using pp by blast
    show "all_range (\<lambda>x. key x = pk) xs2 b c" using bc(1) by (auto simp: all_range_def)
    show "all_range (\<lambda>x. pk \<le> key x) xs2 c hi" unfolding pk_def using pp by blast
  qed
  have t2': "touches_only xs1 xs2 lo hi"
    using t2 by (rule touches_only_mono) (use loa in simp_all)
  have P3: "touches_only xs2 xs3 (Suc lo) hi \<and> part3 key xs3 lo b3 c3 hi pk"
  proof (cases "\<not> hi - c < 5 \<and> hi - c < (hi - lo) div 4")
    case False
    then have "xs3 = xs2" "b3 = b" "c3 = c" using dp by (simp_all split: if_splits)
    then show ?thesis using P2 by (simp add: touches_only_refl)
  next
    case True
    then have dq: "dups_probe lt xs2 lo m hi b c = (xs3, b3, c3, protect)" using dp by simp
    have chi: "c < hi" using bc n by simp
    have mb1: "m + 1 < b" using True bc n by (simp add: m_def) arith
    show ?thesis using key P2 chi mb(1) mb1 dq by (rule dups_probe_props)
  qed
  have P4: "touches_only xs3 xs4 (Suc lo) hi \<and> part3 key xs4 lo b4 c3 hi pk"
  proof (cases protect)
    case False
    then have "xs4 = xs3" "b4 = b3" using pr by simp_all
    then show ?thesis using P3 by (simp add: touches_only_refl)
  next
    case True
    then have pq: "protect_loop lt xs3 lo a b3 = (xs4, a4, b4)" using pr by simp
    show ?thesis using key loa P3 [THEN conjunct2] pq by (rule protect_loop_props)
  qed
  note F = part3_finish [OF P4 [THEN conjunct2]]
  have B4: "lo < b4" "b4 \<le> c3" "c3 \<le> hi" using part3_bounds [OF P4 [THEN conjunct2]] by simp_all
  have w: "touches_only u v (Suc lo) hi \<Longrightarrow> touches_only u v lo hi" for u v :: "'a list"
    by (erule touches_only_mono) simp_all
  have "touches_only xs xs1 lo hi" using t0 [THEN conjunct1] t1 by (rule touches_only_trans)
  then have "touches_only xs xs2 lo hi" using t2' by (rule touches_only_trans)
  then have "touches_only xs xs3 lo hi" using w [OF P3 [THEN conjunct1]] by (rule touches_only_trans)
  then have "touches_only xs xs4 lo hi" using w [OF P4 [THEN conjunct1]] by (rule touches_only_trans)
  then have T: "touches_only xs ys lo hi"
    unfolding r using F [THEN conjunct1] by (rule touches_only_trans)
  have X: "\<exists>pk. all_range (\<lambda>x. key x \<le> pk) ys lo mlo
              \<and> all_range (\<lambda>x. key x = pk) ys mlo mhi
              \<and> all_range (\<lambda>x. pk \<le> key x) ys mhi hi"
    unfolding r using F [THEN conjunct2] by (rule exI)
  have "lo \<le> mlo \<and> mlo < mhi \<and> mhi \<le> hi" unfolding r using B4 by auto
  then show ?thesis using T X by blast
qed

subsection \<open>Quicksort and \<open>sort.Slice\<close>\<close>

lemma sorted_range_join:
  assumes o: "a \<le> mlo" "mlo \<le> mhi" "mhi \<le> b"
    and sl: "sorted_range key ws a mlo" and sr: "sorted_range key ws mhi b"
    and L: "all_range (\<lambda>x. key x \<le> pk) ws a mlo"
    and E: "all_range (\<lambda>x. key x = pk) ws mlo mhi"
    and R: "all_range (\<lambda>x. pk \<le> key x) ws mhi b"
  shows "sorted_range key ws a b"
  unfolding sorted_range_def
proof (intro allI impI)
  fix i j assume ij: "a \<le> i \<and> i < j \<and> j < b"
  have lo: "key (ws ! k) \<le> pk" if "a \<le> k" "k < mhi" for k
  proof (cases "k < mlo")
    case True
    then show ?thesis using L that by (simp add: all_range_def)
  next
    case False
    then show ?thesis using E that by (simp add: all_range_def)
  qed
  have hi: "pk \<le> key (ws ! k)" if "mlo \<le> k" "k < b" for k
  proof (cases "k < mhi")
    case True
    then show ?thesis using E that by (simp add: all_range_def)
  next
    case False
    then show ?thesis using R that by (simp add: all_range_def)
  qed
  consider "j < mlo" | "mhi \<le> i" | "i < mhi" "mlo \<le> j" using o ij by linarith
  then show "key (ws ! i) \<le> key (ws ! j)"
  proof cases
    case 1
    then show ?thesis using sl ij by (simp add: sorted_range_def)
  next
    case 2
    then show ?thesis using sr ij by (simp add: sorted_range_def)
  next
    case 3
    have "key (ws ! i) \<le> pk" using lo [of i] ij 3 by simp
    moreover have "pk \<le> key (ws ! j)" using hi [of j] ij 3 by simp
    ultimately show ?thesis by (rule order_trans)
  qed
qed

lemma quickSort_correct:
  "\<forall>x y. lt x y = ((key :: 'a \<Rightarrow> 'k::linorder) x < key y) \<Longrightarrow> a \<le> b \<Longrightarrow> b \<le> length xs \<Longrightarrow>
   sorted_range key (quickSort_func lt xs a b d) a b
   \<and> touches_only xs (quickSort_func lt xs a b d) a b"
proof (induction d arbitrary: xs a b)
  case 0
  note key = "0.prems"(1)
  have key': "lt x y = (key x < key y)" for x y using key by simp
  show ?case
  proof (cases "b - a > 12")
    case True
    then show ?thesis using heapSort_correct [OF key "0.prems"(2,3)] by simp
  next
    case False
    then show ?thesis
      using small_sort_correct [of lt key, OF key' "0.prems"(3), of a] by simp
  qed
next
  case (Suc d)
  note key = Suc.prems(1)
  have key': "lt x y = (key x < key y)" for x y using key by simp
  show ?case
  proof (cases "b - a > 12")
    case False
    then show ?thesis
      using small_sort_correct [of lt key, OF key' Suc.prems(3), of a] by simp
  next
    case True
    obtain ys mlo mhi where dv: "doPivot_func lt xs a b = (ys, mlo, mhi)"
      by (cases "doPivot_func lt xs a b") auto
    have n: "a + 12 < b" using True by simp
    note D = doPivot_props [OF key n Suc.prems(3) dv]
    have o: "a \<le> mlo" "mlo \<le> mhi" "mhi \<le> b" using D by simp_all
    have ty: "touches_only xs ys a b" using D by blast
    have ly: "length ys = length xs" using ty by (rule touches_only_length)
    obtain pk where L: "all_range (\<lambda>x. key x \<le> pk) ys a mlo"
      and E: "all_range (\<lambda>x. key x = pk) ys mlo mhi"
      and R: "all_range (\<lambda>x. pk \<le> key x) ys mhi b"
      using D by blast
    have bl: "b \<le> length ys" "mlo \<le> length ys" "mhi \<le> length ys"
      using Suc.prems(3) ly o by simp_all
    show ?thesis
    proof (cases "mlo - a < b - mhi")
      case left: True
      define zs where "zs = quickSort_func lt ys a mlo d"
      define ws where "ws = quickSort_func lt zs mhi b d"
      have e: "quickSort_func lt xs a b (Suc d) = ws"
        using True dv left by (simp add: zs_def ws_def)
      have z: "sorted_range key zs a mlo" "touches_only ys zs a mlo"
        unfolding zs_def using Suc.IH [OF key o(1) bl(2)] by simp_all
      have lz: "length zs = length ys" using z(2) by (rule touches_only_length)
      have w: "sorted_range key ws mhi b" "touches_only zs ws mhi b"
        unfolding ws_def using Suc.IH [OF key o(3), of zs] bl(1) lz by simp_all
      have Lz: "all_range (\<lambda>x. key x \<le> pk) zs a mlo"
        using z(2) bl(2) L by (rule all_range_touched)
      have Ez: "all_range (\<lambda>x. key x = pk) zs mlo mhi"
        using z(2) bl(3) _ E by (rule all_range_untouched) simp
      have Rz: "all_range (\<lambda>x. pk \<le> key x) zs mhi b"
        using z(2) bl(1) _ R by (rule all_range_untouched) (use o in simp)
      have bz: "b \<le> length zs" "mlo \<le> length zs" "mhi \<le> length zs" using bl lz by simp_all
      have Lw: "all_range (\<lambda>x. key x \<le> pk) ws a mlo"
        using w(2) bz(2) _ Lz by (rule all_range_untouched) (use o in simp)
      have Ew: "all_range (\<lambda>x. key x = pk) ws mlo mhi"
        using w(2) bz(3) _ Ez by (rule all_range_untouched) simp
      have Rw: "all_range (\<lambda>x. pk \<le> key x) ws mhi b"
        using w(2) bz(1) Rz by (rule all_range_touched)
      have sw: "sorted_range key ws a mlo"
        using w(2) bz(2) _ z(1) by (rule sorted_range_untouched) (use o in simp)
      have S: "sorted_range key ws a b"
        using o sw w(1) Lw Ew Rw by (rule sorted_range_join)
      have "touches_only ys zs a b" using z(2) by (rule touches_only_mono) (use o in simp_all)
      moreover have "touches_only zs ws a b"
        using w(2) by (rule touches_only_mono) (use o in simp_all)
      ultimately have "touches_only ys ws a b" by (rule touches_only_trans)
      then have "touches_only xs ws a b" using ty by (blast intro: touches_only_trans)
      then show ?thesis using S e by simp
    next
      case right: False
      define zs where "zs = quickSort_func lt ys mhi b d"
      define ws where "ws = quickSort_func lt zs a mlo d"
      have e: "quickSort_func lt xs a b (Suc d) = ws"
        using True dv right by (simp add: zs_def ws_def)
      have z: "sorted_range key zs mhi b" "touches_only ys zs mhi b"
        unfolding zs_def using Suc.IH [OF key o(3) bl(1)] by simp_all
      have lz: "length zs = length ys" using z(2) by (rule touches_only_length)
      have w: "sorted_range key ws a mlo" "touches_only zs ws a mlo"
        unfolding ws_def using Suc.IH [OF key o(1), of zs] bl(2) lz by simp_all
      have Lz: "all_range (\<lambda>x. key x \<le> pk) zs a mlo"
        using z(2) bl(2) _ L by (rule all_range_untouched) (use o in simp)
      have Ez: "all_range (\<lambda>x. key x = pk) zs mlo mhi"
        using z(2) bl(3) _ E by (rule all_range_untouched) simp
      have Rz: "all_range (\<lambda>x. pk \<le> key x) zs mhi b"
        using z(2) bl(1) R by (rule all_range_touched)
      have bz: "b \<le> length zs" "mlo \<le> length zs" "mhi \<le> length zs" using bl lz by simp_all
      have Lw: "all_range (\<lambda>x. key x \<le> pk) ws a mlo"
        using w(2) bz(2) Lz by (rule all_range_touched)
      have Ew: "all_range (\<lambda>x. key x = pk) ws mlo mhi"
        using w(2) bz(3) _ Ez by (rule all_range_untouched) simp
      have Rw: "all_range (\<lambda>x. pk \<le> key x) ws mhi b"
        using w(2) bz(1) _ Rz by (rule all_range_untouched) (use o in simp)
      have sw: "sorted_range key ws mhi b"
        using w(2) bz(1) _ z(1) by (rule sorted_range_untouched) (use o in simp)
      have S: "sorted_range key ws a b"
        using o w(1) sw Lw Ew Rw by (rule sorted_range_join)
      have "touches_only ys zs a b" using z(2) by (rule touches_only_mono) (use o in simp_all)
      moreover have "touches_only zs ws a b"
        using w(2) by (rule touches_only_mono) (use o in simp_all)
      ultimately have "touches_only ys ws a b" by (rule touches_only_trans)
      then have "touches_only xs ws a b" using ty by (blast intro: touches_only_trans)
      then show ?thesis using S e by simp
    qed
  qed
qed

lemma sort_Slice_correct:
  assumes "\<forall>x y. lt x y = ((key :: 'a \<Rightarrow> 'k::linorder) x < key y)"
  shows "sorted (map key (sort_Slice lt xs)) \<and> mset (sort_Slice lt xs) = mset xs"
proof -
  define ys where "ys = sort_Slice lt xs"
  have q: "sorted_range key ys 0 (length xs) \<and> touches_only xs ys 0 (length xs)"
    unfolding ys_def sort_Slice_def using assms by (intro quickSort_correct) simp_all
  have l: "length ys = length xs" using q [THEN conjunct2] by (rule touches_only_length)
  have "sorted (map key ys)"
    unfolding sorted_iff_nth_mono_less using q l by (simp add: sorted_range_def)
  moreover have "mset ys = mset xs" using q [THEN conjunct2] by (rule touches_only_mset)
  ultimately show ?thesis by (simp add: ys_def)
qed

subsection \<open>The two sorted views\<close>

lemma strings_Compare_less: "(strings_Compare a b < 0) = (a < b)"
  by (simp add: strings_Compare_def)

text \<open>
  Claim C3 says that the two sorted views are stable: files with equal keys keep the order
  of the walk. In the snapshot \<open>seven_files\<close> the files \<open>d0/m.epub\<close> and \<open>d1/m.epub\<close> have
  the same modification time and the same name, and the walk found \<open>d0/m.epub\<close> first;
  both views list \<open>d1/m.epub\<close> first. For at most twelve elements \<open>quickSort_func\<close>
  compares and swaps elements six places apart before it sorts by insertion, and that
  pass carries \<open>d0/m.epub\<close> to the end of the slice.
\<close>

theorem sorted_views_not_stable:
  "map Path (filter (\<lambda>f. fi_ModTime (FileInfo f) = 5) seven_files) = [''d0/m.epub'', ''d1/m.epub'']
   \<and> map Path (filter (\<lambda>f. fi_ModTime (FileInfo f) = 5) (sortByLatest seven_files))
       = [''d1/m.epub'', ''d0/m.epub'']
   \<and> map Path (filter (\<lambda>f. Name f = ''m.epub'') seven_files) = [''d0/m.epub'', ''d1/m.epub'']
   \<and> map Path (filter (\<lambda>f. Name f = ''m.epub'') (sortByTitle seven_files))
       = [''d1/m.epub'', ''d0/m.epub'']"
  by code_simp

text \<open>
  Claim C3, without the stability: for every snapshot, \<open>sortByLatest\<close> returns the files
  of the snapshot, each as often as the snapshot holds it, with modification times that
  never increase along the list, and \<open>sortByTitle\<close> returns the files of the snapshot,
  each as often as the snapshot holds it, with names that never decrease in the order of
  their bytes.
\<close>

theorem sorted_views_ordered:
  "sorted_wrt (\<lambda>x y. fi_ModTime (FileInfo y) \<le> fi_ModTime (FileInfo x)) (sortByLatest fls)
   \<and> mset (sortByLatest fls) = mset fls
   \<and> sorted_wrt (\<lambda>x y. Name x \<le> Name y) (sortByTitle fls)
   \<and> mset (sortByTitle fls) = mset fls"
proof -
  have "\<forall>x y. (fi_ModTime (FileInfo x) > fi_ModTime (FileInfo y))
      = (- fi_ModTime (FileInfo x) < - fi_ModTime (FileInfo y))"
    by simp
  then have "sorted (map (\<lambda>f. - fi_ModTime (FileInfo f)) (sortByLatest fls))
      \<and> mset (sortByLatest fls) = mset fls"
    unfolding sortByLatest_def by (rule sort_Slice_correct)
  then have latest: "sorted_wrt (\<lambda>x y. fi_ModTime (FileInfo y) \<le> fi_ModTime (FileInfo x))
        (sortByLatest fls) \<and> mset (sortByLatest fls) = mset fls"
    by (simp add: sorted_map)
  have "\<forall>x y. (strings_Compare (Name x) (Name y) < 0) = (Name x < Name y)"
    by (simp add: strings_Compare_less)
  then have "sorted (map Name (sortByTitle fls)) \<and> mset (sortByTitle fls) = mset fls"
    unfolding sortByTitle_def by (rule sort_Slice_correct)
  then have titles: "sorted_wrt (\<lambda>x y. Name x \<le> Name y) (sortByTitle fls)
      \<and> mset (sortByTitle fls) = mset fls"
    by (simp add: sorted_map)
  show ?thesis using latest titles by simp
qed

theorem sorted_views_ordered_witness:
  "sorted_wrt (\<lambda>x y. fi_ModTime (FileInfo y) \<le> fi_ModTime (FileInfo x)) (sortByLatest seven_files)
   \<and> mset (sortByLatest seven_files) = mset seven_files
   \<and> sorted_wrt (\<lambda>x y. Name x \<le> Name y) (sortByTitle seven_files)
   \<and> mset (sortByTitle seven_files) = mset seven_files"
  by (rule sorted_views_ordered)

end
